theory Spec2Isabelle
  imports Main "HOL-Library.Sublist" "HOL-Library.Char_ord" "HOL-Library.List_Lexorder"
begin

section \<open>Values exchanged with the backend\<close>

text \<open>
  The frontend receives untyped documents (\<^verbatim>\<open>invoke<any>('get_settings')\<close>). They are
  modelled as JSON values; an object is an association list read with \<open>map_of\<close>, and a
  missing property (JavaScript's \<^verbatim>\<open>undefined\<close>) is \<open>None\<close>. Numbers are the integers the
  settings hold, with \<open>JNaN\<close> for the one non-number \<^verbatim>\<open>parseInt\<close> can produce.
\<close>

datatype json =
    JNull
  | JBool bool
  | JNum int
  | JNaN
  | JStr string
  | JObj "(string \<times> json) list"

text \<open>JavaScript truthiness, as used by \<^verbatim>\<open>||\<close> and \<^verbatim>\<open>&&\<close>.\<close>

fun truthy :: "json \<Rightarrow> bool" where
  "truthy JNull = False"
| "truthy (JBool b) = b"
| "truthy (JNum n) = (n \<noteq> 0)"
| "truthy JNaN = False"
| "truthy (JStr s) = (s \<noteq> [])"
| "truthy (JObj ps) = True"

text \<open>
  Property read \<^verbatim>\<open>v[k]\<close> on a value that is not \<^verbatim>\<open>null\<close>. Own properties of an object
  are looked up; everything else reads as \<^verbatim>\<open>undefined\<close>. (Inherited properties and
  the index properties of a string are never a boolean, so for the comparison
  \<^verbatim>\<open>!== false\<close> and for the property name \<^verbatim>\<open>enabledApps\<close> they behave as \<^verbatim>\<open>undefined\<close>.)
\<close>

fun get_prop :: "json \<Rightarrow> string \<Rightarrow> json option" where
  "get_prop (JObj ps) k = map_of ps k"
| "get_prop v k = None"

section \<open>Data model (types.ts)\<close>

record MCPServer =
  name :: string
  enabled :: bool
  command :: "string option"
  args :: "string list option"
  env :: "(string \<times> string) list option"
  application :: string

text \<open>One element of \<^verbatim>\<open>applications\<close> inside a consolidated server (App.tsx).\<close>

record AppEntry =
  app_name :: string
  app_enabled :: bool
  app_command :: "string option"
  app_args :: "string list option"

record ConsolidatedServer =
  cs_name :: string
  applications :: "AppEntry list"

section \<open>loadData (App.tsx)\<close>

text \<open>
  \<^verbatim>\<open>Array.prototype.sort\<close> with a comparator: the sort is stable, and for a consistent
  comparator its result is the stable sorted permutation, which insertion from the right
  computes.
\<close>

fun insert_sorted :: "('a \<Rightarrow> 'a \<Rightarrow> int) \<Rightarrow> 'a \<Rightarrow> 'a list \<Rightarrow> 'a list" where
  "insert_sorted c x [] = [x]"
| "insert_sorted c x (y # ys) = (if c x y \<le> 0 then x # y # ys else y # insert_sorted c x ys)"

definition array_sort :: "('a \<Rightarrow> 'a \<Rightarrow> int) \<Rightarrow> 'a list \<Rightarrow> 'a list" where
  "array_sort c xs = foldr (insert_sorted c) xs []"

text \<open>
  What ECMAScript requires of a comparator for the sort order to be defined: the sign of
  \<open>c x y\<close> is the opposite of the sign of \<open>c y x\<close>, and \<open>\<le> 0\<close> is transitive.
\<close>

definition consistent_comparator :: "('a \<Rightarrow> 'a \<Rightarrow> int) \<Rightarrow> bool" where
  "consistent_comparator c \<longleftrightarrow>
     (\<forall>x y. (c x y < 0) = (0 < c y x)) \<and>
     (\<forall>x y z. c x y \<le> 0 \<and> c y z \<le> 0 \<longrightarrow> c x z \<le> 0)"

text \<open>
  The comparator of \<^verbatim>\<open>serversData.sort\<close>; \<open>lc\<close> stands for \<^verbatim>\<open>String.prototype.localeCompare\<close>,
  whose collation depends on the host's locale.
\<close>

definition compareServers :: "(string \<Rightarrow> string \<Rightarrow> int) \<Rightarrow> MCPServer \<Rightarrow> MCPServer \<Rightarrow> int" where
  "compareServers lc a b =
     (let nameCompare = lc (name a) (name b)
      in if nameCompare \<noteq> 0 then nameCompare else lc (application a) (application b))"

definition sortedServers :: "(string \<Rightarrow> string \<Rightarrow> int) \<Rightarrow> MCPServer list \<Rightarrow> MCPServer list" where
  "sortedServers lc serversData = array_sort (compareServers lc) serversData"

datatype load_error = InvokeRejected string | TypeError

text \<open>\<^verbatim>\<open>settingsData.enabledApps || {}\<close>; reading a property of \<^verbatim>\<open>null\<close> throws.\<close>

definition enabledAppsSettings :: "json \<Rightarrow> load_error + json" where
  "enabledAppsSettings settingsData =
     (case settingsData of
        JNull \<Rightarrow> Inl TypeError
      | _ \<Rightarrow> Inr (case get_prop settingsData ''enabledApps'' of
                    None \<Rightarrow> JObj []
                  | Some v \<Rightarrow> if truthy v then v else JObj []))"

text \<open>\<^verbatim>\<open>sortedServers.filter(server => enabledAppsSettings[server.application] !== false)\<close>\<close>

definition filteredServers :: "json \<Rightarrow> MCPServer list \<Rightarrow> MCPServer list" where
  "filteredServers enabledApps servers =
     filter (\<lambda>server. get_prop enabledApps (application server) \<noteq> Some (JBool False)) servers"

definition app_entry :: "MCPServer \<Rightarrow> AppEntry" where
  "app_entry server =
     \<lparr>app_name = application server, app_enabled = enabled server,
      app_command = command server, app_args = args server\<rparr>"

text \<open>\<^verbatim>\<open>existing.applications.push(...)\<close> on the first element \<^verbatim>\<open>acc.find\<close> returns.\<close>

fun push_application :: "string \<Rightarrow> AppEntry \<Rightarrow> ConsolidatedServer list \<Rightarrow> ConsolidatedServer list" where
  "push_application n a [] = []"
| "push_application n a (s # acc) =
     (if cs_name s = n then s\<lparr>applications := applications s @ [a]\<rparr> # acc
      else s # push_application n a acc)"

text \<open>The callback of \<^verbatim>\<open>filteredServers.reduce\<close>.\<close>

definition consolidate_step :: "ConsolidatedServer list \<Rightarrow> MCPServer \<Rightarrow> ConsolidatedServer list" where
  "consolidate_step acc server =
     (case find (\<lambda>s. cs_name s = name server) acc of
        Some existing \<Rightarrow> push_application (name server) (app_entry server) acc
      | None \<Rightarrow> acc @ [\<lparr>cs_name = name server, applications = [app_entry server]\<rparr>])"

definition consolidate :: "MCPServer list \<Rightarrow> ConsolidatedServer list" where
  "consolidate servers = foldl consolidate_step [] servers"

text \<open>
  The part of \<^verbatim>\<open>loadData\<close> that computes the consolidated view from the results of
  \<^verbatim>\<open>get_servers\<close> and \<^verbatim>\<open>get_settings\<close>. A rejected invocation or a thrown error reaches
  the \<^verbatim>\<open>catch\<close> block, which leaves the view as it was and sets the error banner.
\<close>

definition loadData ::
  "(string \<Rightarrow> string \<Rightarrow> int) \<Rightarrow> string + MCPServer list \<Rightarrow> string + json
     \<Rightarrow> load_error + ConsolidatedServer list" where
  "loadData lc get_servers get_settings =
     (case get_servers of
        Inl e \<Rightarrow> Inl (InvokeRejected e)
      | Inr serversData \<Rightarrow>
          (case get_settings of
             Inl e \<Rightarrow> Inl (InvokeRejected e)
           | Inr settingsData \<Rightarrow>
               (case enabledAppsSettings settingsData of
                  Inl e \<Rightarrow> Inl e
                | Inr enabledApps \<Rightarrow>
                    Inr (consolidate (filteredServers enabledApps (sortedServers lc serversData))))))"

text \<open>\<^verbatim>\<open>settings.enabledApps\<close> holds the value \<^verbatim>\<open>false\<close> for the application.\<close>

definition app_disabled :: "json \<Rightarrow> string \<Rightarrow> bool" where
  "app_disabled settingsData a =
     (case get_prop settingsData ''enabledApps'' of
        Some (JObj ps) \<Rightarrow> map_of ps a = Some (JBool False)
      | _ \<Rightarrow> False)"

text \<open>
  Sample data: a collation that compares strings code unit by code unit, three
  applications' servers, and a settings document that switches \<^verbatim>\<open>Zed\<close> off.
\<close>

definition compare_codeunits :: "string \<Rightarrow> string \<Rightarrow> int" where
  "compare_codeunits a b = (if a < b then - 1 else if a = b then 0 else 1)"

definition example_servers :: "MCPServer list" where
  "example_servers =
     [\<lparr>name = ''weather'', enabled = True, command = Some ''npx'', args = Some [''weather-mcp''],
       env = None, application = ''Cursor''\<rparr>,
      \<lparr>name = ''filesystem'', enabled = False, command = Some ''npx'', args = None,
       env = None, application = ''Zed''\<rparr>,
      \<lparr>name = ''filesystem'', enabled = True, command = Some ''npx'', args = None,
       env = None, application = ''Cursor''\<rparr>,
      \<lparr>name = ''filesystem'', enabled = True, command = Some ''node'', args = None,
       env = None, application = ''Claude Desktop''\<rparr>,
      \<lparr>name = ''git'', enabled = True, command = None, args = None,
       env = None, application = ''Zed''\<rparr>]"

definition example_settings :: json where
  "example_settings =
     JObj [(''theme'', JStr ''dark''),
           (''enabledApps'', JObj [(''Cursor'', JBool True), (''Zed'', JBool False)])]"

definition example_consolidated :: "ConsolidatedServer list" where
  "example_consolidated =
     [\<lparr>cs_name = ''filesystem'',
        applications =
          [\<lparr>app_name = ''Claude Desktop'', app_enabled = True, app_command = Some ''node'',
              app_args = None\<rparr>,
           \<lparr>app_name = ''Cursor'', app_enabled = True, app_command = Some ''npx'',
              app_args = None\<rparr>]\<rparr>,
      \<lparr>cs_name = ''weather'',
        applications =
          [\<lparr>app_name = ''Cursor'', app_enabled = True, app_command = Some ''npx'',
              app_args = Some [''weather-mcp'']\<rparr>]\<rparr>]"

section \<open>filterLogs (Logs.tsx)\<close>

text \<open>
  A log entry as the \<^verbatim>\<open>LogEntry\<close> interface declares it; \<^verbatim>\<open>details\<close> is optional. The
  two filter states are the objects of checkboxes, indexed by level and by category.
\<close>

datatype log_level = LevelError | LevelWarning | LevelInfo | LevelDebug

datatype log_category = CategoryServer | CategoryApplication | CategorySystem

record LogEntry =
  log_id :: string
  timestamp :: string
  level :: log_level
  category :: log_category
  message :: string
  details :: "string option"

record LevelFilters =
  lf_error :: bool
  lf_warning :: bool
  lf_info :: bool
  lf_debug :: bool

record CategoryFilters =
  cf_server :: bool
  cf_application :: bool
  cf_system :: bool

fun level_filter :: "LevelFilters \<Rightarrow> log_level \<Rightarrow> bool" where
  "level_filter f LevelError = lf_error f"
| "level_filter f LevelWarning = lf_warning f"
| "level_filter f LevelInfo = lf_info f"
| "level_filter f LevelDebug = lf_debug f"

fun category_filter :: "CategoryFilters \<Rightarrow> log_category \<Rightarrow> bool" where
  "category_filter f CategoryServer = cf_server f"
| "category_filter f CategoryApplication = cf_application f"
| "category_filter f CategorySystem = cf_system f"

text \<open>\<^verbatim>\<open>String.prototype.includes\<close>: the argument occurs as a contiguous part of the string.\<close>

fun string_includes :: "string \<Rightarrow> string \<Rightarrow> bool" where
  "string_includes [] t = (t = [])"
| "string_includes (c # s) t = (prefix t (c # s) \<or> string_includes s t)"

text \<open>
  The callback of \<^verbatim>\<open>logs.filter\<close>, with its three early returns. \<open>toLowerCase\<close> stands
  for \<^verbatim>\<open>String.prototype.toLowerCase\<close>. With \<^verbatim>\<open>details\<close> undefined the optional chain
  \<^verbatim>\<open>log.details?.toLowerCase().includes(...)\<close> is undefined, which \<^verbatim>\<open>!\<close> turns into true.
\<close>

definition keep_log ::
  "(string \<Rightarrow> string) \<Rightarrow> string \<Rightarrow> LevelFilters \<Rightarrow> CategoryFilters \<Rightarrow> LogEntry \<Rightarrow> bool" where
  "keep_log toLowerCase searchTerm levelFilters categoryFilters log =
     (if \<not> level_filter levelFilters (level log) then False
      else if \<not> category_filter categoryFilters (category log) then False
      else if searchTerm \<noteq> [] \<and>
              \<not> string_includes (toLowerCase (message log)) (toLowerCase searchTerm) \<and>
              \<not> (case details log of
                    None \<Rightarrow> False
                  | Some d \<Rightarrow> string_includes (toLowerCase d) (toLowerCase searchTerm))
           then False
      else True)"

definition filterLogs ::
  "(string \<Rightarrow> string) \<Rightarrow> LogEntry list \<Rightarrow> string \<Rightarrow> LevelFilters \<Rightarrow> CategoryFilters
     \<Rightarrow> LogEntry list" where
  "filterLogs toLowerCase logs searchTerm levelFilters categoryFilters =
     filter (keep_log toLowerCase searchTerm levelFilters categoryFilters) logs"

text \<open>
  Sample data: lower-casing of ASCII letters, and log entries after the demo data of the
  viewer, the third without details.
\<close>

definition ascii_lower :: "char \<Rightarrow> char" where
  "ascii_lower c =
     (if CHR ''A'' \<le> c \<and> c \<le> CHR ''Z'' then char_of (of_char c + (32::nat)) else c)"

definition sample_logs :: "LogEntry list" where
  "sample_logs =
     [\<lparr>log_id = ''1'', timestamp = ''2025-08-23T10:04:00.000Z'', level = LevelInfo,
       category = CategoryServer,
       message = ''MCP server \"filesystem\" started successfully'',
       details = Some ''Server listening on port 3001, PID: 12345''\<rparr>,
      \<lparr>log_id = ''2'', timestamp = ''2025-08-23T10:03:00.000Z'', level = LevelWarning,
       category = CategoryApplication,
       message = ''Claude Desktop configuration updated'',
       details = Some ''Server \"weather-api\" was disabled by user''\<rparr>,
      \<lparr>log_id = ''3'', timestamp = ''2025-08-23T10:02:00.000Z'', level = LevelError,
       category = CategoryServer,
       message = ''Failed to start MCP server \"broken-server\"'',
       details = None\<rparr>,
      \<lparr>log_id = ''4'', timestamp = ''2025-08-23T10:01:00.000Z'', level = LevelInfo,
       category = CategorySystem,
       message = ''Configuration sync completed'',
       details = Some ''Synced 3 applications, 12 servers total''\<rparr>,
      \<lparr>log_id = ''5'', timestamp = ''2025-08-23T10:00:00.000Z'', level = LevelDebug,
       category = CategorySystem,
       message = ''Application detection scan started'',
       details = Some ''Scanning for: Claude Desktop, Cursor, VS Code, Amazon Q''\<rparr>]"

definition initial_levelFilters :: LevelFilters where
  "initial_levelFilters = \<lparr>lf_error = True, lf_warning = True, lf_info = True, lf_debug = False\<rparr>"

definition initial_categoryFilters :: CategoryFilters where
  "initial_categoryFilters = \<lparr>cf_server = True, cf_application = True, cf_system = True\<rparr>"

section \<open>Settings (Settings.tsx)\<close>

text \<open>The constant \<^verbatim>\<open>defaultSettings\<close>, an object of eleven properties.\<close>

definition defaultSettings :: "(string \<times> json) list" where
  "defaultSettings =
     [(''autoStart'', JBool False),
      (''minimizeToTray'', JBool True),
      (''checkUpdates'', JBool True),
      (''theme'', JStr ''system''),
      (''refreshInterval'', JNum 10),
      (''backupLocation'', JStr ''''),
      (''backupFrequency'', JStr ''weekly''),
      (''logLevel'', JStr ''info''),
      (''enableLogs'', JBool True),
      (''developerMode'', JBool False),
      (''enabledApps'',
         JObj [(''Claude Desktop'', JBool True),
               (''Cursor'', JBool True),
               (''Amazon Q Developer'', JBool True),
               (''Visual Studio Code'', JBool True),
               (''Zed'', JBool False),
               (''Continue.dev'', JBool False)])]"

text \<open>
  Object spread \<^verbatim>\<open>{ ...target, ...source }\<close>: each own property of the source is assigned
  in turn, replacing the value of a property the target has and appending a new one.
\<close>

fun set_prop :: "string \<Rightarrow> json \<Rightarrow> (string \<times> json) list \<Rightarrow> (string \<times> json) list" where
  "set_prop k v [] = [(k, v)]"
| "set_prop k v (p # ps) = (if fst p = k then (k, v) # ps else p # set_prop k v ps)"

definition spread :: "(string \<times> json) list \<Rightarrow> (string \<times> json) list \<Rightarrow> (string \<times> json) list" where
  "spread target source = foldl (\<lambda>obj p. set_prop (fst p) (snd p) obj) target source"

text \<open>
  \<^verbatim>\<open>loadSettings\<close>: the state becomes \<^verbatim>\<open>{ ...defaultSettings, ...savedSettings }\<close>, or
  \<^verbatim>\<open>defaultSettings\<close> when \<^verbatim>\<open>get_settings\<close> is rejected. The argument is the result of the
  invocation, typed \<^verbatim>\<open>UserSettings\<close>, an object.
\<close>

definition loadSettings :: "string + (string \<times> json) list \<Rightarrow> (string \<times> json) list" where
  "loadSettings get_settings =
     (case get_settings of
        Inr savedSettings \<Rightarrow> spread (spread [] defaultSettings) savedSettings
      | Inl error \<Rightarrow> defaultSettings)"

text \<open>
  \<^verbatim>\<open>parseInt\<close> with one argument: leading white space is skipped, a sign is read, a
  prefix \<^verbatim>\<open>0x\<close> selects radix 16, and the longest run of digits is the value; no digit
  gives \<^verbatim>\<open>NaN\<close>. (Values are exact integers here; JavaScript rounds beyond \<open>2^53\<close>.)
\<close>

definition is_whitespace :: "char \<Rightarrow> bool" where
  "is_whitespace c = (of_char c \<in> {9::nat, 10, 11, 12, 13, 32, 160})"

definition digit_value :: "char \<Rightarrow> nat option" where
  "digit_value c =
     (let n = of_char c :: nat
      in if 48 \<le> n \<and> n \<le> 57 then Some (n - 48)
         else if 97 \<le> n \<and> n \<le> 122 then Some (n - 87)
         else if 65 \<le> n \<and> n \<le> 90 then Some (n - 55)
         else None)"

fun parse_digits :: "nat \<Rightarrow> nat option \<Rightarrow> string \<Rightarrow> nat option" where
  "parse_digits R acc [] = acc"
| "parse_digits R acc (c # cs) =
     (case digit_value c of
        None \<Rightarrow> acc
      | Some d \<Rightarrow>
          if d < R then parse_digits R (Some (R * (case acc of None \<Rightarrow> 0 | Some a \<Rightarrow> a) + d)) cs
          else acc)"

definition parseInt :: "string \<Rightarrow> json" where
  "parseInt input =
     (let s = dropWhile is_whitespace input;
          sign = (case s of c # r \<Rightarrow> if c = CHR ''-'' then - 1 else 1 | [] \<Rightarrow> (1::int));
          s1 = (case s of c # r \<Rightarrow> if c = CHR ''-'' \<or> c = CHR ''+'' then r else s | [] \<Rightarrow> s);
          hex = (case s1 of a # b # r \<Rightarrow> a = CHR ''0'' \<and> (b = CHR ''x'' \<or> b = CHR ''X'') | _ \<Rightarrow> False);
          R = (if hex then 16 else 10);
          s2 = (if hex then drop 2 s1 else s1)
      in case parse_digits R None s2 of
           None \<Rightarrow> JNaN
         | Some n \<Rightarrow> JNum (sign * int n))"

text \<open>
  The \<^verbatim>\<open>onChange\<close> handler of the refresh interval input (declared \<^verbatim>\<open>type="number"\<close>,
  \<^verbatim>\<open>min="5"\<close>, \<^verbatim>\<open>max="300"\<close>):
  \<^verbatim>\<open>setSettings({ ...settings, refreshInterval: parseInt(e.target.value) })\<close>.
\<close>

definition onRefreshIntervalChange :: "(string \<times> json) list \<Rightarrow> string \<Rightarrow> (string \<times> json) list" where
  "onRefreshIntervalChange settings input_value =
     set_prop ''refreshInterval'' (parseInt input_value) (spread [] settings)"

text \<open>
  The refresh interval input as the form renders it:
  \<^verbatim>\<open><input type="number" min="5" max="300" value={settings.refreshInterval} ... />\<close>.
\<close>

record number_input =
  input_min :: int
  input_max :: int
  input_value :: "json option"

definition refreshIntervalInput :: "(string \<times> json) list \<Rightarrow> number_input" where
  "refreshIntervalInput settings =
     \<lparr>input_min = 5, input_max = 300, input_value = map_of settings ''refreshInterval''\<rparr>"

text \<open>An interval registered with \<^verbatim>\<open>setInterval\<close>: its callback and its delay.\<close>

datatype timer_callback = LoadData | LoadLogs

record timer =
  callback :: timer_callback
  period_ms :: nat

text \<open>
  The effect of \<^verbatim>\<open>Logs\<close>: \<^verbatim>\<open>if (autoRefresh) interval = window.setInterval(loadLogs, 5000)\<close>.
\<close>

definition logs_refresh_timer :: "bool \<Rightarrow> timer option" where
  "logs_refresh_timer autoRefresh =
     (if autoRefresh then Some \<lparr>callback = LoadLogs, period_ms = 5000\<rparr> else None)"

text \<open>The decimal numeral of a natural number, as typed into the input.\<close>

function decimal :: "nat \<Rightarrow> string" where
  "decimal n = (if n < 10 then [char_of (48 + n)] else decimal (n div 10) @ [char_of (48 + n mod 10)])"
  by pat_completeness auto
termination by (relation "measure id") auto

declare decimal.simps [simp del]

definition is_decimal_digit :: "char \<Rightarrow> bool" where
  "is_decimal_digit c \<longleftrightarrow> (\<exists>d<10. c = char_of (48 + d :: nat))"

section \<open>Handlers that invoke backend commands (App.tsx)\<close>

text \<open>
  What a handler leaves behind: the backend state after its invocations, the message it
  passes to \<^verbatim>\<open>setError\<close> in its \<^verbatim>\<open>catch\<close> block (if it gets there), and whether it went on
  to \<^verbatim>\<open>await loadData()\<close>.
\<close>

record 'b handler_outcome =
  backend :: 'b
  error_message :: "string option"
  reloaded :: bool

text \<open>
  \<^verbatim>\<open>handleToggleServer\<close>: the command is invoked with \<^verbatim>\<open>enabled: !enabled\<close>. The backend
  command \<^verbatim>\<open>toggle_server\<close> is a parameter: it rejects with a message or resolves, and
  leaves a backend state.
\<close>

definition handleToggleServer ::
  "(string \<Rightarrow> string \<Rightarrow> bool \<Rightarrow> 'b \<Rightarrow> (string + unit) \<times> 'b)
     \<Rightarrow> string \<Rightarrow> string \<Rightarrow> bool \<Rightarrow> 'b \<Rightarrow> 'b handler_outcome" where
  "handleToggleServer toggle_server serverName app isEnabled st =
     (case toggle_server serverName app (\<not> isEnabled) st of
        (Inr u, st') \<Rightarrow> \<lparr>backend = st', error_message = None, reloaded = True\<rparr>
      | (Inl e, st') \<Rightarrow>
          \<lparr>backend = st', error_message = Some (''Failed to toggle server: '' @ e),
           reloaded = False\<rparr>)"

text \<open>
  \<^verbatim>\<open>server.applications.map(app => invoke('toggle_server', ...))\<close>: one invocation per
  application entry, all issued at once, each whatever the others return. The backend
  serves them one at a time in an order of its own: \<open>served\<close> lists the positions of the
  entries in that order, each position once, and a number that is the position of no
  entry stands for no invocation. The result of each invocation is kept with its
  position.
\<close>

fun serve_all ::
  "(string \<Rightarrow> string \<Rightarrow> bool \<Rightarrow> 'b \<Rightarrow> (string + unit) \<times> 'b)
     \<Rightarrow> string \<Rightarrow> bool \<Rightarrow> string list \<Rightarrow> nat list \<Rightarrow> 'b
     \<Rightarrow> (nat \<times> (string + unit)) list \<times> 'b" where
  "serve_all toggle_server serverName v as [] st = ([], st)"
| "serve_all toggle_server serverName v as (i # served) st =
     (if i < length as then
        (case toggle_server serverName (as ! i) v st of
           (r, st1) \<Rightarrow>
             (case serve_all toggle_server serverName v as served st1 of
                (rs, st2) \<Rightarrow> ((i, r) # rs, st2)))
      else serve_all toggle_server serverName v as served st)"

text \<open>
  \<^verbatim>\<open>Promise.all\<close> rejects with the rejection that settles first and resolves when no
  invocation is rejected: \<open>settled\<close> lists the positions of the entries in the order in
  which their invocations settle.
\<close>

fun first_rejection :: "(nat \<times> (string + unit)) list \<Rightarrow> nat list \<Rightarrow> string option" where
  "first_rejection rs [] = None"
| "first_rejection rs (i # settled) =
     (case map_of rs i of
        Some (Inl e) \<Rightarrow> Some e
      | _ \<Rightarrow> first_rejection rs settled)"

text \<open>
  \<^verbatim>\<open>handleToggleAllApps\<close>. The backend state of the outcome is the one reached when every
  invocation has been served, which for a rejected \<^verbatim>\<open>Promise.all\<close> may be after the
  \<^verbatim>\<open>catch\<close> block has run.
\<close>

definition handleToggleAllApps ::
  "(string \<Rightarrow> string \<Rightarrow> bool \<Rightarrow> 'b \<Rightarrow> (string + unit) \<times> 'b)
     \<Rightarrow> nat list \<Rightarrow> nat list
     \<Rightarrow> ConsolidatedServer list \<Rightarrow> string \<Rightarrow> bool \<Rightarrow> 'b \<Rightarrow> 'b handler_outcome" where
  "handleToggleAllApps toggle_server served settled consolidatedServers serverName v st =
     (case find (\<lambda>s. cs_name s = serverName) consolidatedServers of
        None \<Rightarrow> \<lparr>backend = st, error_message = None, reloaded = False\<rparr>
      | Some server \<Rightarrow>
          (case serve_all toggle_server serverName v
                  (map app_name (applications server)) served st of
             (results, st') \<Rightarrow>
               (case first_rejection results settled of
                  None \<Rightarrow> \<lparr>backend = st', error_message = None, reloaded = True\<rparr>
                | Some e \<Rightarrow>
                    \<lparr>backend = st', error_message = Some (''Failed to toggle server: '' @ e),
                     reloaded = False\<rparr>)))"

section \<open>The effect of App (App.tsx)\<close>

text \<open>
  The state of \<^verbatim>\<open>App\<close> that the effect reads and writes: \<^verbatim>\<open>consolidatedServers\<close>, the
  error the last \<^verbatim>\<open>loadData\<close> caught (if it failed), the interval the latest run of the
  effect registered (\<open>None\<close> before the component mounts), and the number of calls of
  \<^verbatim>\<open>loadData\<close> the effect and its interval have made.
\<close>

record app_state =
  app_consolidatedServers :: "ConsolidatedServer list"
  app_error :: "load_error option"
  app_interval :: "timer option"
  effect_loadData_calls :: nat

definition app_initial :: app_state where
  "app_initial =
     \<lparr>app_consolidatedServers = [], app_error = None, app_interval = None,
      effect_loadData_calls = 0\<rparr>"

text \<open>
  One run of the effect, after the cleanup of the run before it
  (\<^verbatim>\<open>clearInterval(interval)\<close>): \<^verbatim>\<open>loadData()\<close> is called, and
  \<^verbatim>\<open>const interval = setInterval(loadData, 10000)\<close> is registered in place of the old one.
  The theme and the tray listeners, which the effect sets up as well, have no part in
  the refresh and are left out.
\<close>

definition run_effect :: "app_state \<Rightarrow> app_state" where
  "run_effect st =
     st\<lparr>effect_loadData_calls := Suc (effect_loadData_calls st),
        app_interval := Some \<lparr>callback = LoadData, period_ms = 10000\<rparr>\<rparr>"

text \<open>
  What happens to the component: it mounts; a call of \<^verbatim>\<open>loadData\<close> settles, with the
  results of \<^verbatim>\<open>get_servers\<close> and \<^verbatim>\<open>get_settings\<close>; the registered interval elapses.
\<close>

datatype app_event =
    Mounted
  | LoadSettled "string + MCPServer list" "string + json"
  | IntervalElapsed

text \<open>
  Mounting runs the effect. A \<^verbatim>\<open>loadData\<close> that succeeds calls
  \<^verbatim>\<open>setConsolidatedServers(consolidated)\<close> with a new array; the effect has the dependency
  \<^verbatim>\<open>[consolidatedServers]\<close>, so it is cleaned up and run again. A \<^verbatim>\<open>loadData\<close> that fails
  sets the error and leaves \<^verbatim>\<open>consolidatedServers\<close> as it is. The interval elapsing calls
  \<^verbatim>\<open>loadData\<close>.
\<close>

fun app_step :: "(string \<Rightarrow> string \<Rightarrow> int) \<Rightarrow> app_state \<Rightarrow> app_event \<Rightarrow> app_state" where
  "app_step lc st Mounted = run_effect st"
| "app_step lc st (LoadSettled get_servers get_settings) =
     (case loadData lc get_servers get_settings of
        Inr consolidated \<Rightarrow>
          run_effect (st\<lparr>app_consolidatedServers := consolidated, app_error := None\<rparr>)
      | Inl e \<Rightarrow> st\<lparr>app_error := Some e\<rparr>)"
| "app_step lc st IntervalElapsed =
     (case app_interval st of
        None \<Rightarrow> st
      | Some t \<Rightarrow> st\<lparr>effect_loadData_calls := Suc (effect_loadData_calls st)\<rparr>)"

definition app_run :: "(string \<Rightarrow> string \<Rightarrow> int) \<Rightarrow> app_event list \<Rightarrow> app_state" where
  "app_run lc events = foldl (app_step lc) app_initial events"

text \<open>\<^verbatim>\<open>handleSyncApplication\<close>, with the backend command \<^verbatim>\<open>sync_application\<close> as a parameter.\<close>

definition handleSyncApplication ::
  "(string \<Rightarrow> 'b \<Rightarrow> (string + unit) \<times> 'b) \<Rightarrow> string \<Rightarrow> 'b \<Rightarrow> 'b handler_outcome" where
  "handleSyncApplication sync_application appName st =
     (case sync_application appName st of
        (Inr u, st') \<Rightarrow> \<lparr>backend = st', error_message = None, reloaded = True\<rparr>
      | (Inl e, st') \<Rightarrow>
          \<lparr>backend = st', error_message = Some (''Failed to sync '' @ appName @ '': '' @ e),
           reloaded = False\<rparr>)"

section \<open>The synchronization engine behind the commands\<close>

text \<open>
  The states of \<^verbatim>\<open>syncStatus\<close> as \<^verbatim>\<open>types.ts\<close> declares them.
\<close>

datatype sync_status = Synced | Pending | Conflict | Error

text \<open>
  Modelled from the spec: the error taxonomy of section 7; the code that raises these
  errors is in the backend and not among the sources.
\<close>

datatype engine_error =
    ConfigNotFoundError
  | ConfigParseError
  | WriteConflictError
  | PermissionError
  | ValidationError
  | BackupFailedError

text \<open>
  Modelled from the spec: the per-application data of the engine, which lives in the
  backend and is not among the sources. It joins the \<^verbatim>\<open>Application\<close> of section 3
  (\<^verbatim>\<open>detected\<close>, \<^verbatim>\<open>syncStatus\<close>, with \<open>None\<close> for the state \<^verbatim>\<open>unsynced\<close>), the copies of its
  servers that the Server Registry holds, and its \<^verbatim>\<open>SyncRecord\<close>, the content hash
  captured at the last successful read.
\<close>

record 'h application_state =
  detected :: bool
  servers :: "MCPServer list"
  syncStatus :: "sync_status option"
  contentHash :: "'h option"

text \<open>
  Modelled from the spec: the engine state, absent from the sources. The applications
  by name, the configuration file of each application (\<open>None\<close>: no file on disk), and the
  backup entries, newest first, as pairs of application name and copied content.
\<close>

record 'h engine =
  apps :: "string \<rightharpoonup> 'h application_state"
  files :: "string \<rightharpoonup> string"
  backups :: "(string \<times> string) list"

text \<open>
  Modelled from the spec: the change \<^verbatim>\<open>toggle\<close> makes to the one entry of an application
  (section 4.2: "mutates exactly the one per-application entry").
\<close>

fun set_enabled :: "string \<Rightarrow> bool \<Rightarrow> MCPServer list \<Rightarrow> MCPServer list" where
  "set_enabled n v [] = []"
| "set_enabled n v (s # ss) =
     (if name s = n then s\<lparr>enabled := v\<rparr> # ss else s # set_enabled n v ss)"

text \<open>
  Modelled from the spec: the \<^verbatim>\<open>syncStatus\<close> an edit in memory leaves, with no code among
  the sources. The application becomes \<^verbatim>\<open>pending\<close> ("in-memory differs from last known
  on-disk state, write not yet attempted", section 4.3), unless it is in \<^verbatim>\<open>conflict\<close> or
  \<^verbatim>\<open>error\<close>, which only an explicit action of the caller clears, "never silently"
  (invariant (c) of section 3).
\<close>

fun status_after_edit :: "sync_status option \<Rightarrow> sync_status option" where
  "status_after_edit (Some Conflict) = Some Conflict"
| "status_after_edit (Some Error) = Some Error"
| "status_after_edit st = Some Pending"

text \<open>
  Modelled from the spec: \<^verbatim>\<open>toggle(serverName, appName, enabled)\<close> of the Server Registry
  (section 4.2), absent from the sources: "mutates exactly the one per-application entry;
  no-op (not an error) if already at the requested value". An application that is
  unknown or undetected is the error of the toggleAll scenario of section 8; the spec
  names no error for a server the application does not have, \<open>ValidationError\<close> stands
  for it.
\<close>

definition toggle :: "string \<Rightarrow> string \<Rightarrow> bool \<Rightarrow> 'h engine \<Rightarrow> engine_error + 'h engine" where
  "toggle serverName appName v eng =
     (case apps eng appName of
        None \<Rightarrow> Inl ConfigNotFoundError
      | Some app \<Rightarrow>
          if \<not> detected app then Inl ConfigNotFoundError
          else (case find (\<lambda>s. name s = serverName) (servers app) of
                  None \<Rightarrow> Inl ValidationError
                | Some s \<Rightarrow>
                    if enabled s = v then Inr eng
                    else Inr (eng\<lparr>apps := (apps eng)(appName \<mapsto>
                           app\<lparr>servers := set_enabled serverName v (servers app),
                               syncStatus := status_after_edit (syncStatus app)\<rparr>)\<rparr>)))"

text \<open>
  Modelled from the spec: \<^verbatim>\<open>read()\<close> of an Application Adapter as the Sync Coordinator
  uses it (sections 4.1 and 3), absent from the sources. An absent file is not an error
  and leaves the application undetected; a file that does not parse is
  \<open>ConfigParseError\<close>; otherwise the servers are taken over and the hash of the content is
  recorded. The parser of the adapter and the hash function are parameters.
\<close>

definition read_app ::
  "(string \<Rightarrow> 'h) \<Rightarrow> (string \<Rightarrow> MCPServer list option) \<Rightarrow> string \<Rightarrow> 'h engine
     \<Rightarrow> engine_error + 'h engine" where
  "read_app hash parse appName eng =
     (case files eng appName of
        None \<Rightarrow>
          Inr (eng\<lparr>apps := (apps eng)(appName \<mapsto>
                 \<lparr>detected = False, servers = [], syncStatus = None, contentHash = None\<rparr>)\<rparr>)
      | Some content \<Rightarrow>
          (case parse content of
             None \<Rightarrow> Inl ConfigParseError
           | Some ss \<Rightarrow>
               Inr (eng\<lparr>apps := (apps eng)(appName \<mapsto>
                      \<lparr>detected = True, servers = ss, syncStatus = Some Synced,
                       contentHash = Some (hash content)\<rparr>)\<rparr>)))"

text \<open>
  Modelled from the spec: \<^verbatim>\<open>syncOne(appName)\<close> of the Sync Coordinator (section 4.3),
  absent from the sources: it "recomputes current on-disk hash; if it matches the
  SyncRecord captured at last read, proceeds to back up then write, updates SyncRecord
  and sets synced; if it does not match, sets conflict and aborts the write". A file that
  has disappeared is \<^verbatim>\<open>error\<close>. The serializer of the adapter, which gets the servers and
  the current content, is a parameter; failures of the file system during snapshot and
  write, which come after the comparison, are left out.
\<close>

definition syncOne ::
  "(string \<Rightarrow> 'h) \<Rightarrow> (MCPServer list \<Rightarrow> string \<Rightarrow> string) \<Rightarrow> string \<Rightarrow> 'h engine
     \<Rightarrow> (engine_error + unit) \<times> 'h engine" where
  "syncOne hash serialize appName eng =
     (case apps eng appName of
        None \<Rightarrow> (Inl ConfigNotFoundError, eng)
      | Some app \<Rightarrow>
          (case files eng appName of
             None \<Rightarrow>
               (Inl ConfigNotFoundError,
                eng\<lparr>apps := (apps eng)(appName \<mapsto> app\<lparr>syncStatus := Some Error\<rparr>)\<rparr>)
           | Some current \<Rightarrow>
               if contentHash app = Some (hash current) then
                 (let written = serialize (servers app) current
                  in (Inr (),
                      eng\<lparr>backups := (appName, current) # backups eng,
                          files := (files eng)(appName \<mapsto> written),
                          apps := (apps eng)(appName \<mapsto>
                            app\<lparr>syncStatus := Some Synced,
                                contentHash := Some (hash written)\<rparr>)\<rparr>))
               else
                 (Inl WriteConflictError,
                  eng\<lparr>apps := (apps eng)(appName \<mapsto> app\<lparr>syncStatus := Some Conflict\<rparr>)\<rparr>)))"

text \<open>
  Modelled from the spec: the text of an error as a rejected invocation carries it; the
  backend that produces it is not among the sources, the names are those of section 7.
\<close>

fun error_text :: "engine_error \<Rightarrow> string" where
  "error_text ConfigNotFoundError = ''ConfigNotFoundError''"
| "error_text ConfigParseError = ''ConfigParseError''"
| "error_text WriteConflictError = ''WriteConflictError''"
| "error_text PermissionError = ''PermissionError''"
| "error_text ValidationError = ''ValidationError''"
| "error_text BackupFailedError = ''BackupFailedError''"

text \<open>
  Modelled from the spec: the command \<^verbatim>\<open>toggle_server\<close> the frontend invokes
  (\<^verbatim>\<open>toggleServer\<close> of section 6), absent from the sources, as the registry's \<^verbatim>\<open>toggle\<close>.
\<close>

definition toggle_server ::
  "string \<Rightarrow> string \<Rightarrow> bool \<Rightarrow> 'h engine \<Rightarrow> (string + unit) \<times> 'h engine" where
  "toggle_server serverName appName v eng =
     (case toggle serverName appName v eng of
        Inl e \<Rightarrow> (Inl (error_text e), eng)
      | Inr eng' \<Rightarrow> (Inr (), eng'))"

text \<open>
  Modelled from the spec: the command \<^verbatim>\<open>sync_application\<close> (\<^verbatim>\<open>syncApplication\<close> of section
  6), absent from the sources, as the coordinator's \<^verbatim>\<open>syncOne\<close>.
\<close>

definition sync_application ::
  "(string \<Rightarrow> 'h) \<Rightarrow> (MCPServer list \<Rightarrow> string \<Rightarrow> string) \<Rightarrow> string \<Rightarrow> 'h engine
     \<Rightarrow> (string + unit) \<times> 'h engine" where
  "sync_application hash serialize appName eng =
     (case syncOne hash serialize appName eng of
        (Inl e, eng') \<Rightarrow> (Inl (error_text e), eng')
      | (Inr u, eng') \<Rightarrow> (Inr (), eng'))"

text \<open>
  What the independence of the applications asks of a backend command: seen through the
  part \<open>view st a\<close> of the state that belongs to application \<open>a\<close>, a toggle for one
  application leaves the parts of the others as they are, and its result and its effect
  on its own part depend on that part only.
\<close>

definition per_application ::
  "(string \<Rightarrow> string \<Rightarrow> bool \<Rightarrow> 'b \<Rightarrow> (string + unit) \<times> 'b) \<Rightarrow> ('b \<Rightarrow> string \<Rightarrow> 'v) \<Rightarrow> bool" where
  "per_application cmd view \<longleftrightarrow>
     (\<forall>n a v st a'. a' \<noteq> a \<longrightarrow> view (snd (cmd n a v st)) a' = view st a') \<and>
     (\<forall>n a v st st'. view st a = view st' a \<longrightarrow>
        fst (cmd n a v st) = fst (cmd n a v st') \<and>
        view (snd (cmd n a v st)) a = view (snd (cmd n a v st')) a)"

text \<open>
  Sample data: engines that know two applications and one application, each with the
  server \<^verbatim>\<open>filesystem\<close> enabled, an engine whose second application has no server, and
  a consolidated view that lists \<^verbatim>\<open>filesystem\<close> for three applications.
\<close>

definition app_with :: "MCPServer list \<Rightarrow> nat application_state" where
  "app_with ss = \<lparr>detected = True, servers = ss, syncStatus = Some Synced, contentHash = Some 0\<rparr>"

definition filesystem_server :: "string \<Rightarrow> MCPServer" where
  "filesystem_server a =
     \<lparr>name = ''filesystem'', enabled = True, command = Some ''npx'', args = None, env = None,
      application = a\<rparr>"

definition engine_one_missing :: "nat engine" where
  "engine_one_missing =
     \<lparr>apps = [''Claude Desktop'' \<mapsto> app_with [filesystem_server ''Claude Desktop''],
              ''Cursor'' \<mapsto> app_with [filesystem_server ''Cursor'']],
      files = Map.empty, backups = []\<rparr>"

definition engine_two_missing :: "nat engine" where
  "engine_two_missing =
     \<lparr>apps = [''Claude Desktop'' \<mapsto> app_with [filesystem_server ''Claude Desktop'']],
      files = Map.empty, backups = []\<rparr>"

definition engine_two_rejections :: "nat engine" where
  "engine_two_rejections =
     \<lparr>apps = [''Claude Desktop'' \<mapsto> app_with [filesystem_server ''Claude Desktop''],
              ''Cursor'' \<mapsto> app_with []],
      files = Map.empty, backups = []\<rparr>"

definition filesystem_view :: "ConsolidatedServer list" where
  "filesystem_view =
     [\<lparr>cs_name = ''filesystem'',
       applications = map (\<lambda>a. app_entry (filesystem_server a))
                        [''Claude Desktop'', ''Zed'', ''Cursor'']\<rparr>]"

text \<open>Sample data: an engine with one file on disk, and an adapter that knows one content.\<close>

definition engine_on_disk :: "nat engine" where
  "engine_on_disk = \<lparr>apps = Map.empty, files = [''Cursor'' \<mapsto> ''{}''], backups = []\<rparr>"

definition parse_sample :: "string \<Rightarrow> MCPServer list option" where
  "parse_sample content =
     (if content = ''{}''
      then Some [filesystem_server ''Cursor'',
                 (filesystem_server ''Cursor'')\<lparr>name := ''weather'', enabled := False\<rparr>]
      else None)"

definition serialize_sample :: "MCPServer list \<Rightarrow> string \<Rightarrow> string" where
  "serialize_sample ss content = content"

section \<open>An Application Adapter\<close>

text \<open>
  Modelled from the spec: the content of a configuration file as an Application Adapter
  sees it (sections 4.1 and 6); the adapters are in the backend and not among the
  sources. The file holds a server map; an entry of the map has the fields the adapter
  understands, which are those of \<^verbatim>\<open>MCPServer\<close>, and fields it does not understand, kept
  as they are. Formatting is not part of the content.
\<close>

record native_entry =
  understood :: MCPServer
  unknown_fields :: "(string \<times> json) list"

text \<open>
  Modelled from the spec: the whole document of a configuration file, not among the
  sources: the server map and the top-level keys the adapter does not understand.
\<close>

record config_document =
  server_map :: "native_entry list"
  unknown_keys :: "(string \<times> json) list"

text \<open>
  Modelled from the spec: \<^verbatim>\<open>read() -> sequence of MCPServer\<close> of an adapter (section 4.1),
  absent from the sources: the understood part of every entry of the server map.
\<close>

definition adapter_read :: "config_document \<Rightarrow> MCPServer list" where
  "adapter_read doc = map understood (server_map doc)"

text \<open>
  Modelled from the spec: \<^verbatim>\<open>write(sequence of MCPServer)\<close> of an adapter (section 4.1),
  absent from the sources. The servers are all it is given, so the fields it "does not
  understand" and "must round-trip" (section 6) come from the document on disk: an entry
  keeps the unknown fields of the entry of the same server name, and the document keeps
  its unknown top-level keys.
\<close>

definition write_entry :: "config_document \<Rightarrow> MCPServer \<Rightarrow> native_entry" where
  "write_entry doc s =
     \<lparr>understood = s,
      unknown_fields =
        (case find (\<lambda>e. name (understood e) = name s) (server_map doc) of
           None \<Rightarrow> []
         | Some e \<Rightarrow> unknown_fields e)\<rparr>"

text \<open>
  Modelled from the spec: the document \<^verbatim>\<open>write\<close> leaves on disk, one entry per server
  given, in the order given.
\<close>

definition adapter_write :: "MCPServer list \<Rightarrow> config_document \<Rightarrow> config_document" where
  "adapter_write ss doc = doc\<lparr>server_map := map (write_entry doc) ss\<rparr>"

text \<open>Sample data: a document with unknown fields at both levels.\<close>

definition sample_document :: config_document where
  "sample_document =
     \<lparr>server_map =
        [\<lparr>understood = \<lparr>name = ''filesystem'', enabled = True, command = Some ''npx'',
                         args = Some [''-y'', ''server-filesystem''], env = None,
                         application = ''Cursor''\<rparr>,
          unknown_fields = [(''autoApprove'', JBool True)]\<rparr>,
         \<lparr>understood = \<lparr>name = ''weather'', enabled = False, command = Some ''node'',
                         args = None, env = Some [(''API_KEY'', ''k'')],
                         application = ''Cursor''\<rparr>,
          unknown_fields = []\<rparr>],
      unknown_keys = [(''theme'', JStr ''dark'')]\<rparr>"

section \<open>Properties of the consolidated view\<close>

lemma enabledAppsSettings_lookup:
  "enabledAppsSettings sd = Inr ea \<Longrightarrow>
   (get_prop ea a = Some (JBool False)) =
   (\<exists>ps. get_prop sd ''enabledApps'' = Some (JObj ps) \<and> map_of ps a = Some (JBool False))"
proof -
  assume h: "enabledAppsSettings sd = Inr ea"
  show ?thesis
  proof (cases "get_prop sd ''enabledApps''")
    case None
    with h have "ea = JObj []" by (cases sd) (auto simp: enabledAppsSettings_def)
    with None show ?thesis by simp
  next
    case (Some v)
    with h have ea: "ea = (if truthy v then v else JObj [])"
      by (cases sd) (auto simp: enabledAppsSettings_def)
    show ?thesis using Some ea by (cases v) auto
  qed
qed

lemma names_push: "map cs_name (push_application n a acc) = map cs_name acc"
  by (induction acc) auto

lemma length_push: "length (push_application n a acc) = length acc"
  by (induction acc) auto

lemma names_step:
  "map cs_name (consolidate_step acc s) =
     (if name s \<in> set (map cs_name acc) then map cs_name acc else map cs_name acc @ [name s])"
proof (cases "find (\<lambda>t. cs_name t = name s) acc")
  case None
  then have "name s \<notin> set (map cs_name acc)" by (auto simp: find_None_iff)
  then show ?thesis using None by (simp add: consolidate_step_def)
next
  case (Some e)
  then have "e \<in> set acc \<and> cs_name e = name s"
    by (auto simp: find_Some_iff)
  then have "name s \<in> set (map cs_name acc)" by force
  then show ?thesis using Some by (simp add: consolidate_step_def names_push)
qed

lemma names_fold_set:
  "set (map cs_name (foldl consolidate_step acc xs)) = set (map cs_name acc) \<union> name ` set xs"
proof (induction xs arbitrary: acc)
  case Nil show ?case by simp
next
  case (Cons s xs)
  have "set (map cs_name (consolidate_step acc s)) = insert (name s) (set (map cs_name acc))"
    unfolding names_step by auto
  then show ?case using Cons.IH[of "consolidate_step acc s"] by auto
qed

lemma names_fold_distinct:
  "distinct (map cs_name acc) \<Longrightarrow> distinct (map cs_name (foldl consolidate_step acc xs))"
proof (induction xs arbitrary: acc)
  case Nil then show ?case by simp
next
  case (Cons s xs)
  have "distinct (map cs_name (consolidate_step acc s))"
    unfolding names_step using Cons.prems by auto
  then show ?case using Cons.IH by simp
qed

lemma set_insert_sorted: "set (insert_sorted c x ys) = insert x (set ys)"
  by (induction ys) auto

lemma set_array_sort: "set (array_sort c xs) = set xs"
  unfolding array_sort_def by (induction xs) (auto simp: set_insert_sorted)

lemma consolidate_count:
  "length (consolidate xs) = card (name ` set xs) \<and> distinct (map cs_name (consolidate xs))"
proof -
  have d: "distinct (map cs_name (consolidate xs))"
    unfolding consolidate_def by (rule names_fold_distinct) simp
  have s: "set (map cs_name (consolidate xs)) = name ` set xs"
    unfolding consolidate_def using names_fold_set[of "[]" xs] by simp
  have "length (consolidate xs) = length (map cs_name (consolidate xs))" by simp
  also have "\<dots> = card (set (map cs_name (consolidate xs)))"
    using d by (simp only: distinct_card)
  finally show ?thesis using s d by simp
qed

lemma consistent_total:
  assumes c: "consistent_comparator c"
  shows "c x y \<le> 0 \<or> c y x \<le> 0"
proof (cases "c x y \<le> 0")
  case False
  then have "0 < c x y" by simp
  then have "c y x < 0" using c unfolding consistent_comparator_def by blast
  then show ?thesis by simp
qed simp

lemma consistent_trans: "consistent_comparator c \<Longrightarrow> c x y \<le> 0 \<Longrightarrow> c y z \<le> 0 \<Longrightarrow> c x z \<le> 0"
  unfolding consistent_comparator_def by blast

lemma consistent_zero_sym:
  assumes c: "consistent_comparator c" and z: "c x y = 0"
  shows "c y x = 0"
proof -
  have sgn: "\<And>a b. (c a b < 0) = (0 < c b a)"
    using c unfolding consistent_comparator_def by blast
  have "\<not> c y x < 0" using sgn[of y x] z by simp
  moreover have "\<not> 0 < c y x" using sgn[of x y] z by simp
  ultimately show ?thesis by simp
qed

lemma consistent_refl:
  assumes c: "consistent_comparator c"
  shows "c x x = 0"
proof -
  have "(c x x < 0) = (0 < c x x)"
    using c unfolding consistent_comparator_def by blast
  then show ?thesis by linarith
qed

lemma consistent_both_zero:
  assumes c: "consistent_comparator c" and a: "c x y \<le> 0" and b: "c y x \<le> 0"
  shows "c x y = 0"
proof (rule ccontr)
  assume "c x y \<noteq> 0"
  with a have "c x y < 0" by simp
  then have "0 < c y x" using c unfolding consistent_comparator_def by blast
  with b show False by simp
qed

lemma sorted_insert_sorted:
  assumes c: "consistent_comparator c"
  shows "sorted_wrt (\<lambda>a b. c a b \<le> 0) ys \<Longrightarrow> sorted_wrt (\<lambda>a b. c a b \<le> 0) (insert_sorted c x ys)"
proof (induction ys)
  case Nil
  show ?case by simp
next
  case (Cons y ys)
  show ?case
  proof (cases "c x y \<le> 0")
    case True
    then have "\<forall>z\<in>set ys. c x z \<le> 0"
      using Cons.prems consistent_trans[OF c] by auto
    then show ?thesis using True Cons.prems by simp
  next
    case False
    then have "c y x \<le> 0" using consistent_total[OF c, of x y] by simp
    then show ?thesis using False Cons by (auto simp: set_insert_sorted)
  qed
qed

lemma sorted_array_sort:
  "consistent_comparator c \<Longrightarrow> sorted_wrt (\<lambda>a b. c a b \<le> 0) (array_sort c xs)"
  unfolding array_sort_def by (induction xs) (auto intro: sorted_insert_sorted)

lemma consistent_compareServers:
  assumes c: "consistent_comparator lc"
  shows "consistent_comparator (compareServers lc)"
  unfolding consistent_comparator_def
proof (intro conjI allI impI)
  fix x y :: MCPServer
  have sgn: "\<And>a b. (lc a b < 0) = (0 < lc b a)"
    using c unfolding consistent_comparator_def by blast
  consider (lt) "lc (name x) (name y) < 0" | (eq) "lc (name x) (name y) = 0"
    | (gt) "0 < lc (name x) (name y)" by linarith
  then show "(compareServers lc x y < 0) = (0 < compareServers lc y x)"
  proof cases
    case lt
    moreover from lt have "0 < lc (name y) (name x)" using sgn by simp
    ultimately show ?thesis by (simp add: compareServers_def)
  next
    case eq
    moreover from eq have "lc (name y) (name x) = 0" by (rule consistent_zero_sym[OF c])
    ultimately show ?thesis using sgn[of "application x" "application y"]
      by (simp add: compareServers_def)
  next
    case gt
    moreover from gt have "lc (name y) (name x) < 0" using sgn by simp
    ultimately show ?thesis by (simp add: compareServers_def)
  qed
next
  fix x y z
  assume h: "compareServers lc x y \<le> 0 \<and> compareServers lc y z \<le> 0"
  have nxy: "lc (name x) (name y) \<le> 0" and nyz: "lc (name y) (name z) \<le> 0"
    using h unfolding compareServers_def Let_def by (auto split: if_splits)
  have nxz: "lc (name x) (name z) \<le> 0" using consistent_trans[OF c nxy nyz] .
  show "compareServers lc x z \<le> 0"
  proof (cases "lc (name x) (name z) = 0")
    case False
    then show ?thesis using nxz by (simp add: compareServers_def)
  next
    case True
    then have zx: "lc (name z) (name x) \<le> 0" using consistent_zero_sym[OF c] by simp
    have yx: "lc (name y) (name x) \<le> 0" using consistent_trans[OF c nyz zx] .
    have zy: "lc (name z) (name y) \<le> 0" using consistent_trans[OF c zx nxy] .
    have "lc (name x) (name y) = 0"
      using nxy yx by (rule consistent_both_zero[OF c])
    moreover have "lc (name y) (name z) = 0"
      using nyz zy by (rule consistent_both_zero[OF c])
    ultimately have "lc (application x) (application y) \<le> 0" "lc (application y) (application z) \<le> 0"
      using h by (simp_all add: compareServers_def)
    then have "lc (application x) (application z) \<le> 0" using consistent_trans[OF c] by blast
    then show ?thesis using True by (simp add: compareServers_def)
  qed
qed

lemma names_fold_sorted:
  "sorted_wrt R (map cs_name acc @ map name xs) \<Longrightarrow>
   sorted_wrt R (map cs_name (foldl consolidate_step acc xs))"
proof (induction xs arbitrary: acc)
  case Nil
  then show ?case by simp
next
  case (Cons s xs)
  have "sorted_wrt R (map cs_name (consolidate_step acc s) @ map name xs)"
    using Cons.prems unfolding names_step by (auto simp: sorted_wrt_append)
  then show ?case using Cons.IH by simp
qed

lemma applications_push:
  "e \<in> set (push_application n a acc) \<Longrightarrow>
   e \<in> set acc \<or> (\<exists>e0\<in>set acc. cs_name e0 = n \<and> cs_name e = n \<and> applications e = applications e0 @ [a])"
  by (induction acc) (auto split: if_splits)

lemma apps_fold_sorted:
  "\<forall>e\<in>set acc. sorted_wrt R (map app_name (applications e) @
        map application (filter (\<lambda>s. name s = cs_name e) xs)) \<Longrightarrow>
   \<forall>n. sorted_wrt R (map application (filter (\<lambda>s. name s = n) xs)) \<Longrightarrow>
   \<forall>e\<in>set (foldl consolidate_step acc xs). sorted_wrt R (map app_name (applications e))"
proof (induction xs arbitrary: acc)
  case Nil
  then show ?case by simp
next
  case (Cons s xs)
  have tail: "\<forall>n. sorted_wrt R (map application (filter (\<lambda>s. name s = n) xs))"
  proof
    fix n
    show "sorted_wrt R (map application (filter (\<lambda>s. name s = n) xs))"
      using Cons.prems(2)[rule_format, of n] by (auto split: if_splits)
  qed
  have inv: "\<forall>e\<in>set (consolidate_step acc s). sorted_wrt R (map app_name (applications e) @
        map application (filter (\<lambda>t. name t = cs_name e) xs))"
  proof
    fix e
    assume e: "e \<in> set (consolidate_step acc s)"
    have old: "sorted_wrt R (map app_name (applications e0) @
        map application (filter (\<lambda>t. name t = cs_name e0) xs))" if "e0 \<in> set acc" for e0
      using Cons.prems(1)[rule_format, OF that] by (auto simp: sorted_wrt_append split: if_splits)
    show "sorted_wrt R (map app_name (applications e) @
        map application (filter (\<lambda>t. name t = cs_name e) xs))"
    proof (cases "find (\<lambda>t. cs_name t = name s) acc")
      case None
      then have "e \<in> set acc \<or> e = \<lparr>cs_name = name s, applications = [app_entry s]\<rparr>"
        using e by (auto simp: consolidate_step_def)
      then show ?thesis
      proof
        assume "e \<in> set acc" then show ?thesis by (rule old)
      next
        assume "e = \<lparr>cs_name = name s, applications = [app_entry s]\<rparr>"
        then show ?thesis using Cons.prems(2)[rule_format, of "name s"]
          by (simp add: app_entry_def)
      qed
    next
      case (Some x)
      then have "e \<in> set (push_application (name s) (app_entry s) acc)"
        using e by (simp add: consolidate_step_def)
      then have "e \<in> set acc \<or> (\<exists>e0\<in>set acc. cs_name e0 = name s \<and> cs_name e = name s \<and>
            applications e = applications e0 @ [app_entry s])"
        by (rule applications_push)
      then show ?thesis
      proof
        assume "e \<in> set acc" then show ?thesis by (rule old)
      next
        assume "\<exists>e0\<in>set acc. cs_name e0 = name s \<and> cs_name e = name s \<and>
            applications e = applications e0 @ [app_entry s]"
        then obtain e0 where e0: "e0 \<in> set acc" "cs_name e0 = name s" "cs_name e = name s"
            "applications e = applications e0 @ [app_entry s]" by blast
        show ?thesis using Cons.prems(1)[rule_format, OF e0(1)] e0(2,3,4)
          by (simp add: app_entry_def)
      qed
    qed
  qed
  show ?case using Cons.IH[OF inv tail] by simp
qed

lemma ex_eval:
  "loadData compare_codeunits (Inr example_servers) (Inr example_settings) = Inr example_consolidated"
  by code_simp

lemma consistent_compare_codeunits: "consistent_comparator compare_codeunits"
  unfolding consistent_comparator_def compare_codeunits_def by auto

lemma enabledAppsSettings_total:
  "settingsData \<noteq> JNull \<Longrightarrow> \<exists>ea. enabledAppsSettings settingsData = Inr ea"
  by (cases settingsData) (simp_all add: enabledAppsSettings_def)

lemma loadData_total:
  "settingsData \<noteq> JNull \<Longrightarrow> \<exists>cs. loadData lc (Inr serversData) (Inr settingsData) = Inr cs"
  using enabledAppsSettings_total[of settingsData] by (auto simp: loadData_def)

lemma enabledAppsSettings_disabled:
  assumes "enabledAppsSettings sd = Inr ea"
  shows "(get_prop ea a = Some (JBool False)) = app_disabled sd a"
proof -
  have "app_disabled sd a =
     (\<exists>ps. get_prop sd ''enabledApps'' = Some (JObj ps) \<and> map_of ps a = Some (JBool False))"
    unfolding app_disabled_def by (auto split: option.splits json.splits)
  then show ?thesis using enabledAppsSettings_lookup[OF assms] by simp
qed

lemma loadData_Inr:
  assumes "loadData lc (Inr serversData) (Inr sd) = Inr cs"
  shows "cs = consolidate (filter (\<lambda>s. \<not> app_disabled sd (application s)) (sortedServers lc serversData))"
proof -
  from assms obtain ea where ea: "enabledAppsSettings sd = Inr ea"
    and cs: "cs = consolidate (filteredServers ea (sortedServers lc serversData))"
    by (auto simp: loadData_def split: sum.splits)
  show ?thesis unfolding cs filteredServers_def using enabledAppsSettings_disabled[OF ea] by simp
qed

text \<open>
  Claim C9: the application filter of the dashboard keeps a server exactly when
  \<^verbatim>\<open>settings.enabledApps\<close> does not hold \<^verbatim>\<open>false\<close> for the server's application; in
  particular a server whose application has no entry in \<^verbatim>\<open>enabledApps\<close> is kept.
\<close>

theorem app_filter_keeps_enabled:
  assumes "enabledAppsSettings settingsData = Inr enabledApps"
  shows "filteredServers enabledApps serversData =
           filter (\<lambda>server. \<not> app_disabled settingsData (application server)) serversData
         \<and> (\<forall>server\<in>set serversData. get_prop enabledApps (application server) = None
               \<longrightarrow> server \<in> set (filteredServers enabledApps serversData))"
proof
  show "filteredServers enabledApps serversData =
           filter (\<lambda>server. \<not> app_disabled settingsData (application server)) serversData"
    unfolding filteredServers_def using enabledAppsSettings_disabled[OF assms] by simp
  show "\<forall>server\<in>set serversData. get_prop enabledApps (application server) = None
               \<longrightarrow> server \<in> set (filteredServers enabledApps serversData)"
    by (simp add: filteredServers_def)
qed

theorem app_filter_keeps_enabled_witness:
  "enabledAppsSettings example_settings = Inr (JObj [(''Cursor'', JBool True), (''Zed'', JBool False)])
   \<and> get_prop (JObj [(''Cursor'', JBool True), (''Zed'', JBool False)]) ''Claude Desktop'' = None
   \<and> map application
         (filteredServers (JObj [(''Cursor'', JBool True), (''Zed'', JBool False)]) example_servers)
       = [''Cursor'', ''Cursor'', ''Claude Desktop'']
   \<and> example_servers ! 3 \<in>
         set (filteredServers (JObj [(''Cursor'', JBool True), (''Zed'', JBool False)]) example_servers)"
proof -
  let ?ea = "JObj [(''Cursor'', JBool True), (''Zed'', JBool False)]"
  have h: "enabledAppsSettings example_settings = Inr ?ea"
    by (simp add: enabledAppsSettings_def example_settings_def)
  have n: "get_prop ?ea ''Claude Desktop'' = None" by simp
  have a: "application (example_servers ! 3) = ''Claude Desktop''"
    by (simp add: example_servers_def)
  have m: "example_servers ! 3 \<in> set example_servers"
    by (simp add: example_servers_def)
  note t = app_filter_keeps_enabled[OF h, of example_servers]
  have kept: "example_servers ! 3 \<in> set (filteredServers ?ea example_servers)"
    using t m n a by metis
  have "map application (filteredServers ?ea example_servers)
        = map application (filter (\<lambda>server. \<not> app_disabled example_settings (application server))
            example_servers)"
    using t by simp
  also have "\<dots> = [''Cursor'', ''Cursor'', ''Claude Desktop'']"
    by (simp add: example_servers_def app_disabled_def example_settings_def)
  finally show ?thesis using h n kept by simp
qed

text \<open>
  Claim C2, as stated: the consolidated view has as many entries as there are distinct
  server names across all applications. It fails when an application is switched off in
  the settings: the example has three server names and two consolidated entries, since
  \<^verbatim>\<open>git\<close> is configured for \<^verbatim>\<open>Zed\<close> only.
\<close>

theorem consolidated_count_counterexample:
  "loadData compare_codeunits (Inr example_servers) (Inr example_settings) = Inr example_consolidated
   \<and> length example_consolidated = 2
   \<and> card (name ` set example_servers) = 3"
proof -
  have "name ` set example_servers = {''weather'', ''filesystem'', ''git''}"
    by (auto simp: example_servers_def)
  then have "card (name ` set example_servers) = 3" by simp
  then show ?thesis using ex_eval by (simp add: example_consolidated_def)
qed

text \<open>
  Claim C2, amended: the consolidated view has exactly as many entries as there are
  distinct server names among the serversData of the applications that the settings do not
  switch off, one entry per name.
\<close>

theorem consolidated_count:
  assumes "loadData lc (Inr serversData) (Inr settingsData) = Inr cs"
  shows "length cs = card (name ` {s \<in> set serversData. \<not> app_disabled settingsData (application s)})
         \<and> distinct (map cs_name cs)"
proof -
  let ?xs = "filter (\<lambda>s. \<not> app_disabled settingsData (application s)) (sortedServers lc serversData)"
  have "set ?xs = {s \<in> set serversData. \<not> app_disabled settingsData (application s)}"
    by (auto simp: sortedServers_def set_array_sort)
  then show ?thesis using consolidate_count[of ?xs] loadData_Inr[OF assms] by simp
qed

theorem consolidated_count_witness:
  "loadData compare_codeunits (Inr example_servers) (Inr example_settings) = Inr example_consolidated
   \<and> length example_consolidated
       = card (name ` {s \<in> set example_servers. \<not> app_disabled example_settings (application s)})
   \<and> distinct (map cs_name example_consolidated)"
  using consolidated_count[OF ex_eval] ex_eval by simp

text \<open>
  Claim C3: the consolidated view is ordered. Its entries appear in the collation order
  of their server names, and inside each entry the per-application records appear in the
  collation order of their application names.
\<close>

theorem consolidated_order:
  assumes c: "consistent_comparator lc"
    and l: "loadData lc (Inr serversData) (Inr settingsData) = Inr cs"
  shows "sorted_wrt (\<lambda>a b. lc a b \<le> 0) (map cs_name cs) \<and>
         (\<forall>e\<in>set cs. sorted_wrt (\<lambda>a b. lc a b \<le> 0) (map app_name (applications e)))"
proof -
  let ?R = "\<lambda>a b. lc a b \<le> 0"
  let ?C = "\<lambda>a b. compareServers lc a b \<le> 0"
  let ?xs = "filter (\<lambda>s. \<not> app_disabled settingsData (application s)) (sortedServers lc serversData)"
  have cs: "cs = foldl consolidate_step [] ?xs"
    using loadData_Inr[OF l] by (simp add: consolidate_def)
  have srt: "sorted_wrt ?C ?xs"
    unfolding sortedServers_def
    by (intro sorted_wrt_filter sorted_array_sort consistent_compareServers c)
  have nm: "?C a b \<Longrightarrow> ?R (name a) (name b)" for a b
    by (auto simp: compareServers_def Let_def split: if_splits)
  have "sorted_wrt (\<lambda>a b. ?R (name a) (name b)) ?xs"
    by (rule sorted_wrt_mono_rel[OF _ srt]) (rule nm)
  then have names: "sorted_wrt ?R (map cs_name [] @ map name ?xs)"
    by (simp add: sorted_wrt_map)
  have apps: "sorted_wrt ?R (map application (filter (\<lambda>s. name s = n) ?xs))" for n
  proof -
    have f: "sorted_wrt ?C (filter (\<lambda>s. name s = n) ?xs)"
      by (rule sorted_wrt_filter[OF srt])
    have "sorted_wrt (\<lambda>a b. ?R (application a) (application b)) (filter (\<lambda>s. name s = n) ?xs)"
    proof (rule sorted_wrt_mono_rel[OF _ f])
      fix a b
      assume "a \<in> set (filter (\<lambda>s. name s = n) ?xs)" "b \<in> set (filter (\<lambda>s. name s = n) ?xs)"
        and ab: "?C a b"
      then have "name a = name b" by simp
      then have "lc (name a) (name b) = 0" using consistent_refl[OF c] by simp
      then show "?R (application a) (application b)" using ab by (simp add: compareServers_def)
    qed
    then show ?thesis by (simp add: sorted_wrt_map)
  qed
  have "sorted_wrt ?R (map cs_name cs)"
    unfolding cs by (rule names_fold_sorted[OF names])
  moreover have "\<forall>e\<in>set cs. sorted_wrt ?R (map app_name (applications e))"
    unfolding cs by (rule apps_fold_sorted) (use apps in simp_all)
  ultimately show ?thesis by simp
qed

theorem consolidated_order_witness:
  "consistent_comparator compare_codeunits
   \<and> loadData compare_codeunits (Inr example_servers) (Inr example_settings) = Inr example_consolidated
   \<and> sorted_wrt (\<lambda>a b. compare_codeunits a b \<le> 0) [''filesystem'', ''weather'']
   \<and> sorted_wrt (\<lambda>a b. compare_codeunits a b \<le> 0) [''Claude Desktop'', ''Cursor'']
   \<and> sorted_wrt (\<lambda>a b. compare_codeunits a b \<le> 0) [''Cursor'']"
  using consolidated_order[OF consistent_compare_codeunits ex_eval]
    consistent_compare_codeunits ex_eval
  by (simp add: example_consolidated_def)

section \<open>Properties of the log filter\<close>

lemma includes_sublist: "string_includes s t = sublist t s"
  by (induction s) (auto simp: sublist_Cons_right)

text \<open>
  Claim C10: the filtered log list consists of exactly the entries whose level checkbox
  is on, whose category checkbox is on and, when the search term is not empty, whose
  lower-cased message or details contains the lower-cased search term; the entries keep
  the order they have in the input.
\<close>

theorem filterLogs_exact:
  "filterLogs toLowerCase logs searchTerm levelFilters categoryFilters =
     filter (\<lambda>log. level_filter levelFilters (level log)
                \<and> category_filter categoryFilters (category log)
                \<and> (searchTerm \<noteq> [] \<longrightarrow>
                     sublist (toLowerCase searchTerm) (toLowerCase (message log))
                     \<or> (\<exists>d. details log = Some d
                            \<and> sublist (toLowerCase searchTerm) (toLowerCase d)))) logs
   \<and> subseq (filterLogs toLowerCase logs searchTerm levelFilters categoryFilters) logs"
proof
  have k: "keep_log toLowerCase searchTerm levelFilters categoryFilters log =
        (level_filter levelFilters (level log)
                \<and> category_filter categoryFilters (category log)
                \<and> (searchTerm \<noteq> [] \<longrightarrow>
                     sublist (toLowerCase searchTerm) (toLowerCase (message log))
                     \<or> (\<exists>d. details log = Some d
                            \<and> sublist (toLowerCase searchTerm) (toLowerCase d))))" for log
    by (cases "details log") (auto simp: keep_log_def includes_sublist)
  show "filterLogs toLowerCase logs searchTerm levelFilters categoryFilters =
     filter (\<lambda>log. level_filter levelFilters (level log)
                \<and> category_filter categoryFilters (category log)
                \<and> (searchTerm \<noteq> [] \<longrightarrow>
                     sublist (toLowerCase searchTerm) (toLowerCase (message log))
                     \<or> (\<exists>d. details log = Some d
                            \<and> sublist (toLowerCase searchTerm) (toLowerCase d)))) logs"
    unfolding filterLogs_def by (rule filter_cong) (simp_all only: k)
  show "subseq (filterLogs toLowerCase logs searchTerm levelFilters categoryFilters) logs"
    unfolding filterLogs_def by (rule subseq_filter_left)
qed

theorem filterLogs_exact_witness:
  "''CLAUDE'' \<noteq> []
   \<and> map log_id (filterLogs (map ascii_lower) sample_logs ''CLAUDE''
        initial_levelFilters initial_categoryFilters) = [''2'']
   \<and> (sublist (map ascii_lower ''CLAUDE'') (map ascii_lower (message (sample_logs ! 1)))
        \<or> (\<exists>d. details (sample_logs ! 1) = Some d
               \<and> sublist (map ascii_lower ''CLAUDE'') (map ascii_lower d)))
   \<and> subseq (filterLogs (map ascii_lower) sample_logs ''CLAUDE''
        initial_levelFilters initial_categoryFilters) sample_logs"
proof -
  let ?P = "\<lambda>log. level_filter initial_levelFilters (level log)
                \<and> category_filter initial_categoryFilters (category log)
                \<and> (''CLAUDE'' \<noteq> [] \<longrightarrow>
                     sublist (map ascii_lower ''CLAUDE'') (map ascii_lower (message log))
                     \<or> (\<exists>d. details log = Some d
                            \<and> sublist (map ascii_lower ''CLAUDE'') (map ascii_lower d)))"
  note t = filterLogs_exact[of "map ascii_lower" sample_logs "''CLAUDE''"
      initial_levelFilters initial_categoryFilters]
  have e: "filterLogs (map ascii_lower) sample_logs ''CLAUDE''
        initial_levelFilters initial_categoryFilters = [sample_logs ! 1]"
    by code_simp
  have i: "map log_id [sample_logs ! 1] = [''2'']"
    by (simp add: sample_logs_def)
  from t have f: "filterLogs (map ascii_lower) sample_logs ''CLAUDE''
        initial_levelFilters initial_categoryFilters = filter ?P sample_logs"
    by (rule conjunct1)
  have "sample_logs ! 1 \<in> set (filter ?P sample_logs)"
    unfolding f[symmetric] e by simp
  then have "?P (sample_logs ! 1)" unfolding set_filter by blast
  moreover have "''CLAUDE'' \<noteq> []" by simp
  ultimately have d: "sublist (map ascii_lower ''CLAUDE'') (map ascii_lower (message (sample_logs ! 1)))
        \<or> (\<exists>d. details (sample_logs ! 1) = Some d
               \<and> sublist (map ascii_lower ''CLAUDE'') (map ascii_lower d))"
    by blast
  show ?thesis using t d e i by simp
qed

section \<open>Properties of the settings\<close>

lemma map_of_set_prop:
  "map_of (set_prop k v ps) k' = (if k' = k then Some v else map_of ps k')"
  by (induction ps) auto

lemma keys_set_prop: "set (map fst (set_prop k v ps)) = insert k (set (map fst ps))"
  by (induction ps) auto

lemma distinct_set_prop: "distinct (map fst ps) \<Longrightarrow> distinct (map fst (set_prop k v ps))"
  by (induction ps) (auto simp: keys_set_prop[simplified])

lemma map_of_spread:
  "distinct (map fst source) \<Longrightarrow>
   map_of (spread target source) k =
     (case map_of source k of Some v \<Rightarrow> Some v | None \<Rightarrow> map_of target k)"
  unfolding spread_def
proof (induction source arbitrary: target)
  case Nil
  show ?case by simp
next
  case (Cons p ps)
  have d: "distinct (map fst ps)" and n: "fst p \<notin> fst ` set ps"
    using Cons.prems by auto
  have "map_of ps (fst p) = None" using n by (simp add: map_of_eq_None_iff)
  then show ?case using Cons.IH[OF d, of "set_prop (fst p) (snd p) target"]
    by (cases p) (auto simp: map_of_set_prop split: option.splits)
qed

lemma distinct_spread:
  "distinct (map fst target) \<Longrightarrow> distinct (map fst (spread target source))"
  unfolding spread_def
  by (induction source arbitrary: target) (auto simp: distinct_set_prop)

lemma spread_empty_lookup:
  "distinct (map fst ps) \<Longrightarrow> map_of (spread [] ps) k = map_of ps k"
  by (simp add: map_of_spread split: option.splits)

lemma digit_value_char: "d < 10 \<Longrightarrow> digit_value (char_of (48 + d :: nat)) = Some d"
  by (simp add: digit_value_def)

lemma decimal_digits: "\<forall>c\<in>set (decimal n). is_decimal_digit c"
proof (induction n rule: decimal.induct)
  case (1 n)
  show ?case
  proof (cases "n < 10")
    case True
    then show ?thesis by (subst decimal.simps) (auto simp: is_decimal_digit_def)
  next
    case False
    have "n mod 10 < 10" by simp
    then have "is_decimal_digit (char_of (48 + n mod 10))"
      unfolding is_decimal_digit_def by blast
    then show ?thesis using False 1 by (subst decimal.simps) auto
  qed
qed

lemma decimal_nonempty: "decimal n \<noteq> []"
  by (subst decimal.simps) simp

lemma parse_digits_append:
  "\<forall>c\<in>set xs. is_decimal_digit c \<Longrightarrow>
   parse_digits 10 acc (xs @ ys) = parse_digits 10 (parse_digits 10 acc xs) ys"
proof (induction xs arbitrary: acc)
  case Nil
  show ?case by simp
next
  case (Cons c xs)
  then obtain d :: nat where d: "d < 10" "c = char_of (48 + d)"
    by (auto simp: is_decimal_digit_def)
  show ?case using Cons d by (simp add: digit_value_char)
qed

lemma parse_digits_decimal: "parse_digits 10 None (decimal n) = Some n"
proof (induction n rule: decimal.induct)
  case (1 n)
  show ?case
  proof (cases "n < 10")
    case True
    then show ?thesis by (subst decimal.simps) (simp add: digit_value_char)
  next
    case False
    have m: "n mod 10 < 10" by simp
    have "parse_digits 10 None (decimal (n div 10) @ [char_of (48 + n mod 10)])
          = parse_digits 10 (Some (n div 10)) [char_of (48 + n mod 10)]"
      using parse_digits_append[OF decimal_digits] 1 False by simp
    also have "\<dots> = Some (10 * (n div 10) + n mod 10)"
      using m by (simp add: digit_value_char)
    finally show ?thesis using False by (subst decimal.simps) simp
  qed
qed

lemma decimal_digit_plain:
  assumes "is_decimal_digit c"
  shows "\<not> is_whitespace c \<and> c \<noteq> CHR ''-'' \<and> c \<noteq> CHR ''+'' \<and> c \<noteq> CHR ''x''
         \<and> c \<noteq> CHR ''X''"
proof -
  from assms obtain d :: nat where d: "d < 10" "c = char_of (48 + d)"
    by (auto simp: is_decimal_digit_def)
  then have o: "of_char c = 48 + d" by simp
  have w: "\<not> is_whitespace c" using o d by (auto simp: is_whitespace_def)
  have "of_char c \<noteq> (45::nat)" "of_char c \<noteq> (43::nat)" "of_char c \<noteq> (120::nat)"
    "of_char c \<noteq> (88::nat)"
    using o d by simp_all
  then have "c \<noteq> CHR ''-''" "c \<noteq> CHR ''+''" "c \<noteq> CHR ''x''" "c \<noteq> CHR ''X''"
    by auto
  then show ?thesis using w by simp
qed

lemma parseInt_digit_Cons:
  assumes c: "is_decimal_digit c" and r: "\<forall>b\<in>set r. is_decimal_digit b"
  shows "parseInt (c # r) =
           (case parse_digits 10 None (c # r) of None \<Rightarrow> JNaN | Some n \<Rightarrow> JNum (int n))"
proof -
  note p = decimal_digit_plain[OF c]
  show ?thesis
  proof (cases r)
    case Nil
    show ?thesis unfolding Nil parseInt_def Let_def using p by (simp split: option.splits)
  next
    case (Cons b r')
    then have "is_decimal_digit b" using r by simp
    note q = decimal_digit_plain[OF this]
    show ?thesis unfolding Cons parseInt_def Let_def using p q by (simp split: option.splits)
  qed
qed

lemma parseInt_digits:
  assumes "\<forall>c\<in>set s. is_decimal_digit c" and "s \<noteq> []"
  shows "parseInt s = (case parse_digits 10 None s of None \<Rightarrow> JNaN | Some n \<Rightarrow> JNum (int n))"
  using assms by (cases s) (simp_all add: parseInt_digit_Cons)

lemma parseInt_decimal: "parseInt (decimal n) = JNum (int n)"
  using parseInt_digits[OF decimal_digits decimal_nonempty, of n] by (simp add: parse_digits_decimal)

text \<open>
  Claim C6, amended: every top-level field missing from the persisted document takes its
  default, and every top-level field present takes the persisted value as a whole. A
  rejected \<^verbatim>\<open>get_settings\<close> gives the defaults.
\<close>

theorem loadSettings_merge:
  assumes "distinct (map fst savedSettings)"
  shows "map_of (loadSettings (Inr savedSettings)) k =
           (case map_of savedSettings k of Some v \<Rightarrow> Some v | None \<Rightarrow> map_of defaultSettings k)
         \<and> distinct (map fst (loadSettings (Inr savedSettings)))
         \<and> loadSettings (Inl e) = defaultSettings"
proof -
  have d: "distinct (map fst defaultSettings)" by (simp add: defaultSettings_def)
  show ?thesis
    using assms d
    by (simp add: loadSettings_def map_of_spread distinct_spread split: option.splits)
qed

lemma app_step_interval:
  "app_interval st = Some \<lparr>callback = LoadData, period_ms = 10000\<rparr> \<Longrightarrow>
   app_interval (app_step lc st ev) = Some \<lparr>callback = LoadData, period_ms = 10000\<rparr>"
  by (cases ev) (auto simp: run_effect_def split: sum.splits)

lemma effect_runs_again_after_load:
  "loadData lc get_servers get_settings = Inr consolidated \<Longrightarrow>
   effect_loadData_calls (app_step lc st (LoadSettled get_servers get_settings))
     = Suc (effect_loadData_calls st)"
  by (simp add: run_effect_def)

lemma app_run_interval:
  "app_interval st = Some \<lparr>callback = LoadData, period_ms = 10000\<rparr> \<Longrightarrow>
   app_interval (foldl (app_step lc) st events)
     = Some \<lparr>callback = LoadData, period_ms = 10000\<rparr>"
  by (induction events arbitrary: st) (simp_all add: app_step_interval)

text \<open>
  Claim C7, amended: once the component has mounted, whatever loads settle and whatever
  settings they return, the interval the effect of \<^verbatim>\<open>App\<close> has registered calls
  \<^verbatim>\<open>loadData\<close> with the delay of 10000 ms; the default \<^verbatim>\<open>refreshInterval\<close> is 10; the input
  of the form declares the range from 5 to 300, and a numeral in that range is stored by
  the form as that number.
\<close>

theorem refresh_interval_fixed:
  "app_interval (app_run lc (Mounted # events))
     = Some \<lparr>callback = LoadData, period_ms = 10000\<rparr>
   \<and> map_of defaultSettings ''refreshInterval'' = Some (JNum 10)
   \<and> input_min (refreshIntervalInput settings) = 5
   \<and> input_max (refreshIntervalInput settings) = 300
   \<and> (input_min (refreshIntervalInput settings) \<le> int n
        \<and> int n \<le> input_max (refreshIntervalInput settings) \<longrightarrow>
        map_of (onRefreshIntervalChange settings (decimal n)) ''refreshInterval''
          = Some (JNum (int n)))"
proof -
  have "app_interval (app_step lc app_initial Mounted)
      = Some \<lparr>callback = LoadData, period_ms = 10000\<rparr>"
    by (simp add: run_effect_def)
  then have "app_interval (app_run lc (Mounted # events))
     = Some \<lparr>callback = LoadData, period_ms = 10000\<rparr>"
    unfolding app_run_def by (simp only: foldl_Cons app_run_interval)
  then show ?thesis
    by (simp add: defaultSettings_def onRefreshIntervalChange_def refreshIntervalInput_def
        map_of_set_prop parseInt_decimal)
qed

theorem loadSettings_merge_witness:
  "distinct (map fst [(''theme'', JStr ''dark''), (''enabledApps'', JObj [(''Zed'', JBool True)])])
   \<and> map_of (loadSettings (Inr [(''theme'', JStr ''dark''),
                                   (''enabledApps'', JObj [(''Zed'', JBool True)])])) ''theme''
       = Some (JStr ''dark'')
   \<and> map_of (loadSettings (Inr [(''theme'', JStr ''dark''),
                                   (''enabledApps'', JObj [(''Zed'', JBool True)])])) ''refreshInterval''
       = Some (JNum 10)
   \<and> loadSettings (Inl ''no settings file'') = defaultSettings"
proof -
  let ?saved = "[(''theme'', JStr ''dark''), (''enabledApps'', JObj [(''Zed'', JBool True)])]"
  have d: "distinct (map fst ?saved)" by simp
  show ?thesis
    using d loadSettings_merge[OF d, of "''theme''" "''no settings file''"]
      loadSettings_merge[OF d, of "''refreshInterval''" "''no settings file''"]
    by (simp add: defaultSettings_def)
qed

text \<open>
  Claim C6, as stated, extends the defaults to fields nested inside the document. The
  spread is shallow: a persisted \<^verbatim>\<open>enabledApps\<close> with the one entry \<^verbatim>\<open>Zed\<close> replaces the
  default object, and \<^verbatim>\<open>Claude Desktop\<close>, whose default is true, has no entry in the result.
\<close>

theorem loadSettings_nested_counterexample:
  "map_of (loadSettings (Inr [(''enabledApps'', JObj [(''Zed'', JBool True)])])) ''enabledApps''
     = Some (JObj [(''Zed'', JBool True)])
   \<and> get_prop (JObj [(''Zed'', JBool True)]) ''Claude Desktop'' = None
   \<and> map_of defaultSettings ''enabledApps''
     = Some (JObj [(''Claude Desktop'', JBool True), (''Cursor'', JBool True),
                   (''Amazon Q Developer'', JBool True), (''Visual Studio Code'', JBool True),
                   (''Zed'', JBool False), (''Continue.dev'', JBool False)])
   \<and> get_prop (JObj [(''Claude Desktop'', JBool True), (''Cursor'', JBool True),
                   (''Amazon Q Developer'', JBool True), (''Visual Studio Code'', JBool True),
                   (''Zed'', JBool False), (''Continue.dev'', JBool False)]) ''Claude Desktop''
     = Some (JBool True)"
  by (simp add: loadSettings_def spread_def defaultSettings_def)

theorem refresh_interval_fixed_witness:
  "input_min (refreshIntervalInput defaultSettings) \<le> int 60
   \<and> int 60 \<le> input_max (refreshIntervalInput defaultSettings)
   \<and> decimal 60 = ''60''
   \<and> map_of (onRefreshIntervalChange defaultSettings ''60'') ''refreshInterval'' = Some (JNum 60)
   \<and> app_interval (app_run compare_codeunits
         [Mounted,
          LoadSettled (Inr example_servers)
            (Inr (JObj (onRefreshIntervalChange defaultSettings ''60''))),
          IntervalElapsed])
       = Some \<lparr>callback = LoadData, period_ms = 10000\<rparr>"
proof -
  have d: "decimal 60 = ''60''" by code_simp
  have r: "input_min (refreshIntervalInput defaultSettings) \<le> int 60
      \<and> int 60 \<le> input_max (refreshIntervalInput defaultSettings)"
    by (simp add: refreshIntervalInput_def)
  note t = refresh_interval_fixed[of compare_codeunits
      "[LoadSettled (Inr example_servers)
          (Inr (JObj (onRefreshIntervalChange defaultSettings ''60''))), IntervalElapsed]"
      defaultSettings 60]
  from t r
  have "map_of (onRefreshIntervalChange defaultSettings (decimal 60)) ''refreshInterval''
          = Some (JNum (int 60))"
    by blast
  then have a: "map_of (onRefreshIntervalChange defaultSettings ''60'') ''refreshInterval''
          = Some (JNum 60)"
    unfolding d by simp
  from t have b: "app_interval (app_run compare_codeunits
         [Mounted,
          LoadSettled (Inr example_servers)
            (Inr (JObj (onRefreshIntervalChange defaultSettings ''60''))),
          IntervalElapsed])
       = Some \<lparr>callback = LoadData, period_ms = 10000\<rparr>"
    by blast
  show ?thesis using r d a b by blast
qed

text \<open>
  Claim C7, as stated: the timer follows the configured interval, and every stored value
  lies between 5 and 300. With 60 typed into the form and returned by the load, the
  interval registered still has the delay of 10000 ms, and 1000 typed into the form is
  stored as 1000.
\<close>

theorem refresh_interval_counterexample:
  "get_prop (JObj (onRefreshIntervalChange defaultSettings ''60'')) ''refreshInterval''
     = Some (JNum 60)
   \<and> map_option period_ms (app_interval (app_run compare_codeunits
         [Mounted,
          LoadSettled (Inr example_servers)
            (Inr (JObj (onRefreshIntervalChange defaultSettings ''60'')))]))
       = Some 10000
   \<and> (10000::nat) \<noteq> 60 * 1000
   \<and> map_of (onRefreshIntervalChange defaultSettings ''1000'') ''refreshInterval''
       = Some (JNum 1000)"
proof -
  have p: "parseInt ''60'' = JNum 60" "parseInt ''1000'' = JNum 1000" by code_simp+
  have "app_interval (foldl (app_step compare_codeunits)
          (app_step compare_codeunits app_initial Mounted)
          [LoadSettled (Inr example_servers)
            (Inr (JObj (onRefreshIntervalChange defaultSettings ''60'')))])
       = Some \<lparr>callback = LoadData, period_ms = 10000\<rparr>"
    by (rule app_run_interval) (simp add: run_effect_def)
  then have i: "map_option period_ms (app_interval (app_run compare_codeunits
         [Mounted,
          LoadSettled (Inr example_servers)
            (Inr (JObj (onRefreshIntervalChange defaultSettings ''60'')))]))
       = Some 10000"
    unfolding app_run_def by (simp only: foldl_Cons) simp
  show ?thesis using p i
    by (simp add: onRefreshIntervalChange_def map_of_set_prop)
qed

section \<open>Properties of toggling and synchronizing\<close>

lemma find_set_enabled:
  "find (\<lambda>s. name s = n) ss = Some s \<Longrightarrow>
   find (\<lambda>s. name s = n) (set_enabled n v ss) = Some (s\<lparr>enabled := v\<rparr>)"
  by (induction ss) (auto split: if_splits)

lemma toggle_twice:
  assumes "toggle n a v eng = Inr eng1"
  shows "toggle n a v eng1 = Inr eng1"
proof -
  from assms obtain app s where app: "apps eng a = Some app" "detected app"
    and s: "find (\<lambda>s. name s = n) (servers app) = Some s"
    by (auto simp: toggle_def split: option.splits if_splits)
  show ?thesis
  proof (cases "enabled s = v")
    case True
    then have "eng1 = eng" using assms app s by (simp add: toggle_def)
    then show ?thesis using assms by simp
  next
    case False
    then have e: "eng1 = eng\<lparr>apps := (apps eng)(a \<mapsto>
                           app\<lparr>servers := set_enabled n v (servers app),
                               syncStatus := status_after_edit (syncStatus app)\<rparr>)\<rparr>"
      using assms app s by (simp add: toggle_def)
    show ?thesis unfolding e using app find_set_enabled[OF s, of v]
      by (simp add: toggle_def)
  qed
qed

text \<open>
  Claim C4: toggling a server to the value it already has is a no-op. The engine, and
  with it the registry and the \<^verbatim>\<open>syncStatus\<close> of the application, is returned unchanged
  and no error is raised; the handler of the frontend, called with the opposite of that
  value on display, leaves the backend as it is; and a toggle repeated is a no-op.
\<close>

theorem toggle_same_value_noop:
  assumes "apps eng appName = Some app" and "detected app"
    and "find (\<lambda>s. name s = serverName) (servers app) = Some s"
    and "enabled s = v"
  shows "toggle serverName appName v eng = Inr eng
         \<and> handleToggleServer toggle_server serverName appName (\<not> v) eng
             = \<lparr>backend = eng, error_message = None, reloaded = True\<rparr>
         \<and> (\<forall>w eng1. toggle serverName appName w eng = Inr eng1
               \<longrightarrow> toggle serverName appName w eng1 = Inr eng1)"
proof -
  have t: "toggle serverName appName v eng = Inr eng"
    using assms by (simp add: toggle_def)
  then have "handleToggleServer toggle_server serverName appName (\<not> v) eng
             = \<lparr>backend = eng, error_message = None, reloaded = True\<rparr>"
    by (simp add: handleToggleServer_def toggle_server_def)
  then show ?thesis using t toggle_twice by blast
qed

lemma toggle_keeps_hash:
  assumes "toggle n b v eng1 = Inr eng2"
  shows "map_option contentHash (apps eng2 a) = map_option contentHash (apps eng1 a)"
  using assms by (auto simp: toggle_def split: option.splits if_splits)

text \<open>
  Claim C1: after a successful read of an application, whatever is edited in memory
  since, a modification of its file behind the engine's back (one that changes the
  content hash) makes \<^verbatim>\<open>syncOne\<close> set \<^verbatim>\<open>syncStatus\<close> to \<^verbatim>\<open>conflict\<close> and change nothing
  else: the modified file stays as it is, no backup is taken, and what is in memory is
  kept. The hypothesis on the third engine says that the sync record of the
  application is still the one the read left. The handler of the frontend reports the
  rejection.
\<close>

theorem sync_conflict_detected:
  assumes f: "files eng a = Some c"
    and r: "read_app hash parse a eng = Inr eng1"
    and k: "map_option contentHash (apps eng3 a) = map_option contentHash (apps eng1 a)"
    and x: "files eng3 a = Some c'"
    and m: "hash c' \<noteq> hash c"
  shows "\<exists>app3. apps eng3 a = Some app3
           \<and> syncOne hash serialize a eng3
               = (Inl WriteConflictError,
                  eng3\<lparr>apps := (apps eng3)(a \<mapsto> app3\<lparr>syncStatus := Some Conflict\<rparr>)\<rparr>)
           \<and> files (snd (syncOne hash serialize a eng3)) a = Some c'
           \<and> error_message (handleSyncApplication (sync_application hash serialize) a eng3)
               = Some (''Failed to sync '' @ a @ '': WriteConflictError'')"
proof -
  from r f obtain app1 where a1: "apps eng1 a = Some app1" "contentHash app1 = Some (hash c)"
    by (auto simp: read_app_def split: option.splits)
  from k a1 obtain app3 where
    a3: "apps eng3 a = Some app3" "contentHash app3 = Some (hash c)"
    by (cases "apps eng3 a") auto
  have s: "syncOne hash serialize a eng3
               = (Inl WriteConflictError,
                  eng3\<lparr>apps := (apps eng3)(a \<mapsto> app3\<lparr>syncStatus := Some Conflict\<rparr>)\<rparr>)"
    using a3 x m by (simp add: syncOne_def)
  have "files (snd (syncOne hash serialize a eng3)) a = Some c'"
    unfolding s using x by simp
  moreover have "error_message (handleSyncApplication (sync_application hash serialize) a eng3)
               = Some (''Failed to sync '' @ a @ '': WriteConflictError'')"
    by (simp add: handleSyncApplication_def sync_application_def s)
  ultimately show ?thesis using a3 s by blast
qed

lemma serve_all_independent:
  assumes p: "per_application cmd view" and d: "distinct as"
  shows "distinct served \<Longrightarrow> \<forall>i\<in>set served. i < length as \<Longrightarrow>
     fst (serve_all cmd n v as served st) = map (\<lambda>i. (i, fst (cmd n (as ! i) v st))) served
     \<and> (\<forall>i\<in>set served. view (snd (serve_all cmd n v as served st)) (as ! i)
            = view (snd (cmd n (as ! i) v st)) (as ! i))
     \<and> (\<forall>a. a \<notin> (\<lambda>i. as ! i) ` set served \<longrightarrow>
            view (snd (serve_all cmd n v as served st)) a = view st a)"
proof (induction served arbitrary: st)
  case Nil
  show ?case by simp
next
  case (Cons j js)
  have j: "j < length as" using Cons.prems by simp
  obtain r st1 where c: "cmd n (as ! j) v st = (r, st1)" by (cases "cmd n (as ! j) v st")
  obtain rs st2 where i: "serve_all cmd n v as js st1 = (rs, st2)"
    by (cases "serve_all cmd n v as js st1")
  have dj: "distinct js" and nj: "j \<notin> set js" and lj: "\<forall>i\<in>set js. i < length as"
    using Cons.prems by auto
  note ih = Cons.IH[OF dj lj, of st1, unfolded i fst_conv snd_conv]
  have ne: "as ! i \<noteq> as ! j" if "i \<in> set js" for i
  proof -
    have "i \<noteq> j" "i < length as" using that nj lj by auto
    then show ?thesis using d j by (simp add: nth_eq_iff_index_eq)
  qed
  have f1: "view st1 a = view st a" if "a \<noteq> as ! j" for a
    using p that c unfolding per_application_def by (metis snd_conv)
  have f2: "fst (cmd n a v st1) = fst (cmd n a v st) \<and>
            view (snd (cmd n a v st1)) a = view (snd (cmd n a v st)) a" if "a \<noteq> as ! j" for a
    using p f1[OF that] unfolding per_application_def by blast
  have "rs = map (\<lambda>i. (i, fst (cmd n (as ! i) v st1))) js" using ih by blast
  also have "\<dots> = map (\<lambda>i. (i, fst (cmd n (as ! i) v st))) js"
    by (rule map_cong[OF refl]) (simp add: f2 ne)
  finally have res: "rs = map (\<lambda>i. (i, fst (cmd n (as ! i) v st))) js" .
  have v1: "\<forall>i\<in>set js. view st2 (as ! i) = view (snd (cmd n (as ! i) v st)) (as ! i)"
    using ih ne f2 by simp
  have "as ! j \<notin> (\<lambda>i. as ! i) ` set js" using ne by (metis imageE)
  then have "view st2 (as ! j) = view st1 (as ! j)" using ih by blast
  then have v2: "view st2 (as ! j) = view (snd (cmd n (as ! j) v st)) (as ! j)"
    using c by simp
  have v3: "\<forall>a. a \<notin> (\<lambda>i. as ! i) ` set (j # js) \<longrightarrow> view st2 a = view st a"
    using ih f1 by simp
  show ?case using j c i res v1 v2 v3 by simp
qed

lemma first_rejection_lookup:
  "map_of rs = map_of rs' \<Longrightarrow> first_rejection rs settled = first_rejection rs' settled"
  by (induction settled) (auto split: option.splits sum.splits)

lemma first_rejection_None:
  "(first_rejection rs settled = None) = (\<forall>i\<in>set settled. \<forall>e. map_of rs i \<noteq> Some (Inl e))"
  by (induction settled) (auto split: option.splits sum.splits)

lemma map_of_positions:
  "map_of (map (\<lambda>i. (i, f i)) xs) = (\<lambda>i. if i \<in> set xs then Some (f i) else None)"
  by (induction xs) auto

text \<open>
  Claim C5, amended: \<^verbatim>\<open>handleToggleAllApps\<close> invokes the toggle for every application
  entry of the consolidated server. With a backend command that works per application
  and an entry that lists each application once, in whatever order the invocations are
  served and settle, each application ends in the state it would reach if toggled
  alone, and the applications not listed are untouched. The handler reports one
  message, that of the rejection that settles first, and reloads the view only when no
  invocation is rejected.
\<close>

theorem toggle_all_independent:
  assumes p: "per_application cmd view"
    and f: "find (\<lambda>s. cs_name s = serverName) consolidatedServers = Some server"
    and d: "distinct (map app_name (applications server))"
    and sv: "distinct served" "set served = {0..<length (applications server)}"
    and se: "set settled = {0..<length (applications server)}"
  shows "(\<forall>a\<in>set (map app_name (applications server)).
            view (backend (handleToggleAllApps cmd served settled consolidatedServers
                    serverName v st)) a
              = view (snd (cmd serverName a v st)) a)
         \<and> (\<forall>a. a \<notin> set (map app_name (applications server)) \<longrightarrow>
            view (backend (handleToggleAllApps cmd served settled consolidatedServers
                    serverName v st)) a
              = view st a)
         \<and> error_message (handleToggleAllApps cmd served settled consolidatedServers
                    serverName v st)
             = map_option (\<lambda>e. ''Failed to toggle server: '' @ e)
                 (first_rejection
                    (map (\<lambda>i. (i, fst (cmd serverName
                                          (map app_name (applications server) ! i) v st)))
                       [0..<length (applications server)])
                    settled)
         \<and> reloaded (handleToggleAllApps cmd served settled consolidatedServers serverName v st)
             = (\<forall>a\<in>set (map app_name (applications server)).
                  \<forall>e. fst (cmd serverName a v st) \<noteq> Inl e)"
proof -
  let ?as = "map app_name (applications server)"
  let ?f = "\<lambda>i. fst (cmd serverName (?as ! i) v st)"
  let ?out = "handleToggleAllApps cmd served settled consolidatedServers serverName v st"
  have len: "length ?as = length (applications server)" by simp
  have lt: "\<forall>i\<in>set served. i < length ?as" using sv by simp
  obtain rs st2 where i: "serve_all cmd serverName v ?as served st = (rs, st2)"
    by (cases "serve_all cmd serverName v ?as served st")
  note ind = serve_all_independent[OF p d sv(1) lt, of serverName v st,
      unfolded i fst_conv snd_conv]
  have rs: "rs = map (\<lambda>i. (i, ?f i)) served" using ind by (rule conjunct1)
  have img: "(\<lambda>i. ?as ! i) ` set served = set ?as"
    unfolding sv(2) using nth_image[of "length ?as" ?as] by simp
  have c1: "\<forall>a\<in>set ?as. view st2 a = view (snd (cmd serverName a v st)) a"
    using ind unfolding img[symmetric] by blast
  have c2: "\<forall>a. a \<notin> set ?as \<longrightarrow> view st2 a = view st a"
    using ind unfolding img by blast
  have mo: "map_of rs = map_of (map (\<lambda>i. (i, ?f i)) [0..<length (applications server)])"
    unfolding rs map_of_positions sv(2) by simp
  have b: "backend ?out = st2"
    using f i by (simp add: handleToggleAllApps_def split: option.splits)
  have e: "error_message ?out
             = map_option (\<lambda>e. ''Failed to toggle server: '' @ e) (first_rejection rs settled)"
    using f i by (simp add: handleToggleAllApps_def split: option.splits)
  have l: "reloaded ?out = (first_rejection rs settled = None)"
    using f i by (simp add: handleToggleAllApps_def split: option.splits)
  have fr: "first_rejection rs settled
      = first_rejection (map (\<lambda>i. (i, ?f i)) [0..<length (applications server)]) settled"
    by (rule first_rejection_lookup[OF mo])
  have "(first_rejection rs settled = None)
      = (\<forall>i\<in>{0..<length ?as}. \<forall>e. ?f i \<noteq> Inl e)"
    unfolding first_rejection_None rs map_of_positions sv(2) se by simp
  also have "\<dots> = (\<forall>i. i < length ?as \<longrightarrow> (\<forall>e. ?f i \<noteq> Inl e))"
    by auto
  also have "\<dots> = (\<forall>a\<in>set ?as. \<forall>e. fst (cmd serverName a v st) \<noteq> Inl e)"
    by (rule all_set_conv_all_nth[symmetric])
  finally have no: "(first_rejection rs settled = None)
      = (\<forall>a\<in>set ?as. \<forall>e. fst (cmd serverName a v st) \<noteq> Inl e)" .
  show ?thesis unfolding b e l fr[symmetric] no[symmetric] using c1 c2 by blast
qed

lemma per_application_toggle_server:
  "per_application (toggle_server :: string \<Rightarrow> string \<Rightarrow> bool \<Rightarrow> 'h engine \<Rightarrow> _) apps"
  unfolding per_application_def toggle_server_def toggle_def
  by (auto split: option.splits if_splits)

theorem toggle_same_value_noop_witness:
  "apps engine_one_missing ''Cursor'' = Some (app_with [filesystem_server ''Cursor''])
   \<and> detected (app_with [filesystem_server ''Cursor''])
   \<and> find (\<lambda>s. name s = ''filesystem'') (servers (app_with [filesystem_server ''Cursor'']))
       = Some (filesystem_server ''Cursor'')
   \<and> enabled (filesystem_server ''Cursor'') = True
   \<and> toggle ''filesystem'' ''Cursor'' True engine_one_missing = Inr engine_one_missing
   \<and> backend (handleToggleServer toggle_server ''filesystem'' ''Cursor'' False engine_one_missing)
       = engine_one_missing
   \<and> (\<exists>eng1. toggle ''filesystem'' ''Cursor'' False engine_one_missing = Inr eng1
          \<and> toggle ''filesystem'' ''Cursor'' False eng1 = Inr eng1)"
proof -
  have h1: "apps engine_one_missing ''Cursor'' = Some (app_with [filesystem_server ''Cursor''])"
    by (simp add: engine_one_missing_def)
  have h2: "detected (app_with [filesystem_server ''Cursor''])"
    by (simp add: app_with_def)
  have h3: "find (\<lambda>s. name s = ''filesystem'') (servers (app_with [filesystem_server ''Cursor'']))
       = Some (filesystem_server ''Cursor'')"
    by (simp add: app_with_def filesystem_server_def)
  have h4: "enabled (filesystem_server ''Cursor'') = True"
    by (simp add: filesystem_server_def)
  note t = toggle_same_value_noop[OF h1 h2 h3 h4]
  obtain eng1 where e: "toggle ''filesystem'' ''Cursor'' False engine_one_missing = Inr eng1"
    using h1 h2 h3 h4 by (simp add: toggle_def)
  with t have "toggle ''filesystem'' ''Cursor'' False eng1 = Inr eng1" by blast
  with e have x: "\<exists>eng1. toggle ''filesystem'' ''Cursor'' False engine_one_missing = Inr eng1
          \<and> toggle ''filesystem'' ''Cursor'' False eng1 = Inr eng1" by blast
  from t have "handleToggleServer toggle_server ''filesystem'' ''Cursor'' (\<not> True) engine_one_missing
             = \<lparr>backend = engine_one_missing, error_message = None, reloaded = True\<rparr>"
    by blast
  then have b: "backend (handleToggleServer toggle_server ''filesystem'' ''Cursor'' False
      engine_one_missing) = engine_one_missing" by simp
  from t have "toggle ''filesystem'' ''Cursor'' True engine_one_missing = Inr engine_one_missing"
    by blast
  then show ?thesis using h1 h2 h3 h4 b x by blast
qed

theorem sync_conflict_detected_witness:
  "files engine_on_disk ''Cursor'' = Some ''{}''
   \<and> length ''{ }'' \<noteq> length ''{}''
   \<and> (\<exists>eng1 eng2 eng3. read_app length parse_sample ''Cursor'' engine_on_disk = Inr eng1
         \<and> toggle ''filesystem'' ''Cursor'' False eng1 = Inr eng2
         \<and> toggle ''weather'' ''Cursor'' True eng2 = Inr eng3
         \<and> map_option contentHash (apps (eng3\<lparr>files := [''Cursor'' \<mapsto> ''{ }'']\<rparr>) ''Cursor'')
             = map_option contentHash (apps eng1 ''Cursor'')
         \<and> fst (syncOne length serialize_sample ''Cursor''
                  (eng3\<lparr>files := [''Cursor'' \<mapsto> ''{ }'']\<rparr>)) = Inl WriteConflictError
         \<and> files (snd (syncOne length serialize_sample ''Cursor''
                  (eng3\<lparr>files := [''Cursor'' \<mapsto> ''{ }'']\<rparr>))) ''Cursor'' = Some ''{ }''
         \<and> map_option syncStatus (apps (snd (syncOne length serialize_sample ''Cursor''
                  (eng3\<lparr>files := [''Cursor'' \<mapsto> ''{ }'']\<rparr>))) ''Cursor'') = Some (Some Conflict)
         \<and> map_option (map enabled \<circ> servers) (apps (snd (syncOne length serialize_sample ''Cursor''
                  (eng3\<lparr>files := [''Cursor'' \<mapsto> ''{ }'']\<rparr>))) ''Cursor'') = Some [False, True])"
proof -
  have f: "files engine_on_disk ''Cursor'' = Some ''{}''"
    by (simp add: engine_on_disk_def)
  have m: "length ''{ }'' \<noteq> length ''{}''" by simp
  obtain eng1 where r: "read_app length parse_sample ''Cursor'' engine_on_disk = Inr eng1"
    by (simp add: read_app_def engine_on_disk_def parse_sample_def)
  then have a1: "apps eng1 ''Cursor''
      = Some \<lparr>detected = True,
              servers = [filesystem_server ''Cursor'', (filesystem_server ''Cursor'')
                           \<lparr>name := ''weather'', enabled := False\<rparr>],
              syncStatus = Some Synced, contentHash = Some (length ''{}'')\<rparr>"
    by (auto simp: read_app_def engine_on_disk_def parse_sample_def)
  obtain eng2 where t: "toggle ''filesystem'' ''Cursor'' False eng1 = Inr eng2"
    using a1 by (simp add: toggle_def filesystem_server_def)
  then have a2: "apps eng2 ''Cursor''
      = Some \<lparr>detected = True,
              servers = [(filesystem_server ''Cursor'')\<lparr>enabled := False\<rparr>,
                         (filesystem_server ''Cursor'')\<lparr>name := ''weather'', enabled := False\<rparr>],
              syncStatus = Some Pending, contentHash = Some (length ''{}'')\<rparr>"
    using a1 by (auto simp: toggle_def filesystem_server_def)
  obtain eng3 where u: "toggle ''weather'' ''Cursor'' True eng2 = Inr eng3"
    using a2 by (simp add: toggle_def filesystem_server_def)
  then have a3: "apps eng3 ''Cursor''
      = Some \<lparr>detected = True,
              servers = [(filesystem_server ''Cursor'')\<lparr>enabled := False\<rparr>,
                         (filesystem_server ''Cursor'')\<lparr>name := ''weather'', enabled := True\<rparr>],
              syncStatus = Some Pending, contentHash = Some (length ''{}'')\<rparr>"
    using a2 by (auto simp: toggle_def filesystem_server_def)
  let ?eng4 = "eng3\<lparr>files := [''Cursor'' \<mapsto> ''{ }'']\<rparr>"
  have k: "map_option contentHash (apps ?eng4 ''Cursor'') = map_option contentHash (apps eng1 ''Cursor'')"
    using a1 a3 by simp
  have x: "files ?eng4 ''Cursor'' = Some ''{ }''" by simp
  from sync_conflict_detected[OF f r k x m, of serialize_sample]
  obtain app3 where a: "apps ?eng4 ''Cursor'' = Some app3"
    and s: "syncOne length serialize_sample ''Cursor'' ?eng4
               = (Inl WriteConflictError,
                  ?eng4\<lparr>apps := (apps ?eng4)(''Cursor'' \<mapsto> app3\<lparr>syncStatus := Some Conflict\<rparr>)\<rparr>)"
    and fl: "files (snd (syncOne length serialize_sample ''Cursor'' ?eng4)) ''Cursor'' = Some ''{ }''"
    by blast
  have c1: "fst (syncOne length serialize_sample ''Cursor'' ?eng4) = Inl WriteConflictError"
    unfolding s by simp
  have c2: "map_option syncStatus (apps (snd (syncOne length serialize_sample ''Cursor'' ?eng4))
      ''Cursor'') = Some (Some Conflict)"
    unfolding s by simp
  have c3: "map_option (map enabled \<circ> servers)
      (apps (snd (syncOne length serialize_sample ''Cursor'' ?eng4)) ''Cursor'') = Some [False, True]"
    unfolding s using a a3 by (auto simp: filesystem_server_def)
  show ?thesis using f m r t u k c1 fl c2 c3 by blast
qed

theorem toggle_all_independent_witness:
  "per_application (toggle_server :: string \<Rightarrow> string \<Rightarrow> bool \<Rightarrow> nat engine \<Rightarrow> _) apps
   \<and> find (\<lambda>s. cs_name s = ''filesystem'') filesystem_view = Some (hd filesystem_view)
   \<and> distinct (map app_name (applications (hd filesystem_view)))
   \<and> distinct [2, 0, 1::nat]
   \<and> set [2, 0, 1::nat] = {0..<length (applications (hd filesystem_view))}
   \<and> set [2, 1, 0::nat] = {0..<length (applications (hd filesystem_view))}
   \<and> ''Claude Desktop'' \<in> set (map app_name (applications (hd filesystem_view)))
   \<and> map_option (map enabled \<circ> servers)
         (apps (backend (handleToggleAllApps toggle_server [2, 0, 1] [2, 1, 0] filesystem_view
            ''filesystem'' False engine_two_rejections)) ''Claude Desktop'') = Some [False]
   \<and> ''Amazon Q Developer'' \<notin> set (map app_name (applications (hd filesystem_view)))
   \<and> apps (backend (handleToggleAllApps toggle_server [2, 0, 1] [2, 1, 0] filesystem_view
            ''filesystem'' False engine_two_rejections)) ''Amazon Q Developer'' = None
   \<and> error_message (handleToggleAllApps toggle_server [2, 0, 1] [2, 1, 0] filesystem_view
            ''filesystem'' False engine_two_rejections)
       = Some ''Failed to toggle server: ValidationError''
   \<and> fst (toggle_server ''filesystem'' ''Zed'' False engine_two_rejections)
       = Inl ''ConfigNotFoundError''
   \<and> reloaded (handleToggleAllApps toggle_server [2, 0, 1] [2, 1, 0] filesystem_view
            ''filesystem'' False engine_two_rejections) = False"
proof -
  let ?out = "handleToggleAllApps toggle_server [2, 0, 1] [2, 1, 0] filesystem_view
            ''filesystem'' False engine_two_rejections"
  have p: "per_application (toggle_server :: string \<Rightarrow> string \<Rightarrow> bool \<Rightarrow> nat engine \<Rightarrow> _) apps"
    by (rule per_application_toggle_server)
  have f: "find (\<lambda>s. cs_name s = ''filesystem'') filesystem_view = Some (hd filesystem_view)"
    by (simp add: filesystem_view_def)
  have as: "map app_name (applications (hd filesystem_view)) = [''Claude Desktop'', ''Zed'', ''Cursor'']"
    by (simp add: filesystem_view_def app_entry_def filesystem_server_def)
  have len: "length (applications (hd filesystem_view)) = 3"
    by (simp add: filesystem_view_def)
  have d: "distinct (map app_name (applications (hd filesystem_view)))"
    unfolding as by simp
  have sv: "distinct [2, 0, 1::nat]" "set [2, 0, 1::nat] = {0..<length (applications (hd filesystem_view))}"
    unfolding len by auto
  have se: "set [2, 1, 0::nat] = {0..<length (applications (hd filesystem_view))}"
    unfolding len by auto
  note t = toggle_all_independent[OF p f d sv se, of False engine_two_rejections]
  have i1: "''Claude Desktop'' \<in> set (map app_name (applications (hd filesystem_view)))"
    unfolding as by simp
  have i2: "''Amazon Q Developer'' \<notin> set (map app_name (applications (hd filesystem_view)))"
    unfolding as by simp
  from t i1 have "apps (backend ?out) ''Claude Desktop''
      = apps (snd (toggle_server ''filesystem'' ''Claude Desktop'' False engine_two_rejections))
          ''Claude Desktop''"
    by blast
  then have c1: "map_option (map enabled \<circ> servers) (apps (backend ?out) ''Claude Desktop'')
      = Some [False]"
    by (simp add: toggle_server_def toggle_def engine_two_rejections_def app_with_def
        filesystem_server_def)
  from t i2 have "apps (backend ?out) ''Amazon Q Developer''
      = apps engine_two_rejections ''Amazon Q Developer''"
    by blast
  then have c2: "apps (backend ?out) ''Amazon Q Developer'' = None"
    by (simp add: engine_two_rejections_def)
  have rj: "first_rejection
      (map (\<lambda>i. (i, fst (toggle_server ''filesystem''
                            (map app_name (applications (hd filesystem_view)) ! i) False
                            engine_two_rejections)))
         [0..<length (applications (hd filesystem_view))])
      [2, 1, 0] = Some ''ValidationError''"
    unfolding as len
    by (simp add: upt_rec toggle_server_def toggle_def engine_two_rejections_def app_with_def)
  from t have c3: "error_message ?out = Some ''Failed to toggle server: ValidationError''"
    unfolding rj by simp
  have z: "fst (toggle_server ''filesystem'' ''Zed'' False engine_two_rejections)
       = Inl ''ConfigNotFoundError''"
    by (simp add: toggle_server_def toggle_def engine_two_rejections_def)
  have "''Zed'' \<in> set (map app_name (applications (hd filesystem_view)))"
    unfolding as by simp
  with t z have c4: "reloaded ?out = False" by auto
  show ?thesis using p f d sv se i1 i2 c1 c2 c3 z c4 by blast
qed

text \<open>
  Claim C5, as stated, has every application's outcome reported separately: two
  successes and one error for three applications of which one is missing. The handler
  reports one message and does not reload: what it leaves is the same when the last
  application succeeds and when it fails.
\<close>

theorem toggle_all_report_counterexample:
  "fst (serve_all toggle_server ''filesystem'' False [''Claude Desktop'', ''Zed'', ''Cursor'']
          [0, 1, 2] engine_one_missing)
     = [(0, Inr ()), (1, Inl ''ConfigNotFoundError''), (2, Inr ())]
   \<and> fst (serve_all toggle_server ''filesystem'' False [''Claude Desktop'', ''Zed'', ''Cursor'']
          [0, 1, 2] engine_two_missing)
     = [(0, Inr ()), (1, Inl ''ConfigNotFoundError''), (2, Inl ''ConfigNotFoundError'')]
   \<and> error_message (handleToggleAllApps toggle_server [0, 1, 2] [0, 1, 2] filesystem_view
          ''filesystem'' False engine_one_missing)
       = Some ''Failed to toggle server: ConfigNotFoundError''
   \<and> error_message (handleToggleAllApps toggle_server [0, 1, 2] [0, 1, 2] filesystem_view
          ''filesystem'' False engine_two_missing)
       = Some ''Failed to toggle server: ConfigNotFoundError''
   \<and> reloaded (handleToggleAllApps toggle_server [0, 1, 2] [0, 1, 2] filesystem_view
          ''filesystem'' False engine_one_missing) = False
   \<and> reloaded (handleToggleAllApps toggle_server [0, 1, 2] [0, 1, 2] filesystem_view
          ''filesystem'' False engine_two_missing) = False"
  by (simp add: handleToggleAllApps_def filesystem_view_def app_entry_def filesystem_server_def
      toggle_server_def toggle_def engine_one_missing_def engine_two_missing_def app_with_def)

section \<open>Properties of an adapter\<close>

lemma find_own_entry:
  "distinct (map (\<lambda>e. name (understood e)) es) \<Longrightarrow> e \<in> set es \<Longrightarrow>
   find (\<lambda>x. name (understood x) = name (understood e)) es = Some e"
proof (induction es)
  case Nil
  then show ?case by simp
next
  case (Cons x xs)
  show ?case
  proof (cases "e = x")
    case True
    then show ?thesis by simp
  next
    case False
    then have m: "e \<in> set xs" using Cons.prems by simp
    then have "name (understood x) \<noteq> name (understood e)"
      using Cons.prems(1) by force
    then show ?thesis using Cons m by simp
  qed
qed

lemma write_entry_own:
  assumes "distinct (map (\<lambda>e. name (understood e)) (server_map doc))" and "e \<in> set (server_map doc)"
  shows "write_entry doc (understood e) = e"
  using find_own_entry[OF assms] by (simp add: write_entry_def)

text \<open>
  Claim C8: with server names unique in the file, writing back what was just read gives
  the document that was read; whatever is written, the unknown top-level keys are kept,
  an entry written under the name of an existing entry keeps that entry's unknown
  fields, and reading after writing gives the servers written.
\<close>

theorem adapter_round_trip:
  assumes "distinct (map (\<lambda>e. name (understood e)) (server_map doc))"
  shows "adapter_write (adapter_read doc) doc = doc
         \<and> unknown_keys (adapter_write ss doc) = unknown_keys doc
         \<and> adapter_read (adapter_write ss doc) = ss
         \<and> (\<forall>e\<in>set (server_map doc). \<forall>s\<in>set ss. name s = name (understood e) \<longrightarrow>
               \<lparr>understood = s, unknown_fields = unknown_fields e\<rparr>
                 \<in> set (server_map (adapter_write ss doc)))"
proof -
  have "map (write_entry doc) (map understood (server_map doc)) = server_map doc"
    using write_entry_own[OF assms] by (simp add: map_idI)
  then have a: "adapter_write (adapter_read doc) doc = doc"
    by (simp add: adapter_write_def adapter_read_def)
  have b: "unknown_keys (adapter_write ss doc) = unknown_keys doc"
    by (simp add: adapter_write_def)
  have c: "adapter_read (adapter_write ss doc) = ss"
    by (simp add: adapter_write_def adapter_read_def write_entry_def comp_def)
  have d: "\<lparr>understood = s, unknown_fields = unknown_fields e\<rparr>
                 \<in> set (server_map (adapter_write ss doc))"
    if e: "e \<in> set (server_map doc)" and s: "s \<in> set ss" and n: "name s = name (understood e)"
    for e s
  proof -
    have "write_entry doc s = \<lparr>understood = s, unknown_fields = unknown_fields e\<rparr>"
      using find_own_entry[OF assms e] n by (simp add: write_entry_def)
    then show ?thesis using s by (force simp: adapter_write_def)
  qed
  show ?thesis using a b c d by blast
qed

theorem adapter_round_trip_witness:
  "distinct (map (\<lambda>e. name (understood e)) (server_map sample_document))
   \<and> adapter_write (adapter_read sample_document) sample_document = sample_document
   \<and> unknown_keys (adapter_write [(understood (hd (server_map sample_document)))\<lparr>enabled := False\<rparr>]
         sample_document) = [(''theme'', JStr ''dark'')]
   \<and> hd (server_map sample_document) \<in> set (server_map sample_document)
   \<and> name ((understood (hd (server_map sample_document)))\<lparr>enabled := False\<rparr>)
       = name (understood (hd (server_map sample_document)))
   \<and> \<lparr>understood = (understood (hd (server_map sample_document)))\<lparr>enabled := False\<rparr>,
        unknown_fields = [(''autoApprove'', JBool True)]\<rparr>
       \<in> set (server_map (adapter_write
             [(understood (hd (server_map sample_document)))\<lparr>enabled := False\<rparr>] sample_document))"
proof -
  let ?e = "hd (server_map sample_document)"
  let ?s = "(understood ?e)\<lparr>enabled := False\<rparr>"
  have d: "distinct (map (\<lambda>e. name (understood e)) (server_map sample_document))"
    by (simp add: sample_document_def)
  note t = adapter_round_trip[OF d, of "[?s]"]
  from t have a: "adapter_write (adapter_read sample_document) sample_document = sample_document"
    by blast
  from t have "unknown_keys (adapter_write [?s] sample_document) = unknown_keys sample_document"
    by blast
  then have b: "unknown_keys (adapter_write [?s] sample_document) = [(''theme'', JStr ''dark'')]"
    by (simp add: sample_document_def)
  have m: "?e \<in> set (server_map sample_document)" by (simp add: sample_document_def)
  have n: "name ?s = name (understood ?e)" by simp
  have u: "unknown_fields ?e = [(''autoApprove'', JBool True)]" by (simp add: sample_document_def)
  have "?s \<in> set [?s]" by simp
  with t m n have "\<lparr>understood = ?s, unknown_fields = unknown_fields ?e\<rparr>
      \<in> set (server_map (adapter_write [?s] sample_document))"
    by blast
  then have c: "\<lparr>understood = ?s, unknown_fields = [(''autoApprove'', JBool True)]\<rparr>
      \<in> set (server_map (adapter_write [?s] sample_document))"
    unfolding u .
  show ?thesis using d a b m n c by blast
qed

end
